theory Spec2Isabelle
  imports Main "HOL-Library.Word"
begin

unbundle bit_operations_syntax

section \<open>Disk-block allocation over a fixed pool of 64 blocks\<close>

text \<open>
  The repository holds two allocators over a simulated disk of 64 blocks, each in two
  copies that differ in identifiers and comments only:
  \<^item> the bitmap allocator (\<open>ai-generated-bitmap-code-in-C.c\<close>: \<open>map_init\<close>,
    \<open>allocate_contiguous\<close>, \<open>free_contiguous\<close>, \<open>show_map\<close>; the second copy names them
    \<open>start_bitmap_from_scratch\<close>, \<open>find_and_take_blocks\<close>, \<open>give_back_blocks\<close>,
    \<open>show_current_bitmap\<close> and factors the bit test out as \<open>check_block_status\<close>);
  \<^item> the linked free-list allocator (\<open>ai-generated-linked-list-allocation-code-in-C.c\<close>:
    \<open>setup\<close>, \<open>get_one_block\<close>, \<open>get_blocks\<close>, \<open>release_blocks\<close>, \<open>display_state\<close>; the
    second copy names them \<open>initialize_linked_system\<close>, \<open>grab_one_free_block\<close>,
    \<open>allocate_file_blocks\<close>, \<open>free_up_file_blocks\<close>, \<open>show_linked_list_state\<close>).

  C \<open>int\<close> values are modelled as \<open>int\<close>: every loop counter stays between 0 and its
  bound, and an index that leaves the array is caught before any sum could overflow.
  The global arrays are passed and returned explicitly. An array access outside the array
  is undefined behaviour in C; the model makes it the value \<open>Inl OutOfBounds\<close>.
\<close>

datatype error = OutOfBounds

subsection \<open>Bitmap allocator\<close>

definition BLOCK_COUNT :: int where
  "BLOCK_COUNT = 64"

definition BITS_IN_BYTE :: int where
  "BITS_IN_BYTE = 8"

definition MAP_SIZE :: int where
  "MAP_SIZE = (BLOCK_COUNT + BITS_IN_BYTE - 1) div BITS_IN_BYTE"

text \<open>\<open>uint8_t allocation_map[MAP_SIZE]\<close>: a list of bytes; bit \<open>i mod 8\<close> of byte
  \<open>i div 8\<close> is 1 when block \<open>i\<close> is used.\<close>

type_synonym bitmap = "8 word list"

text \<open>An index is inside the array. For a block number \<open>blk\<close> the byte index is
  \<open>blk div 8\<close>: it is inside the array exactly when \<open>0 \<le> blk < 8 * length m\<close>. For a negative
  \<open>blk\<close> C's truncating division gives either a negative byte index or a negative shift
  count, both undefined, and the floor division used here gives a negative byte index, so
  the two agree on which accesses are defined, and on the defined ones \<open>div\<close> and \<open>mod\<close>
  are C's \<open>/\<close> and \<open>%\<close>.\<close>

definition in_map :: "bitmap \<Rightarrow> int \<Rightarrow> bool" where
  "in_map m b = (0 \<le> b \<and> b < int (length m))"

text \<open>\<open>memset(allocation_map, 0, MAP_SIZE)\<close>\<close>

definition map_init :: bitmap where
  "map_init = replicate (nat MAP_SIZE) 0"

text \<open>\<open>check_block_status\<close>: \<open>(map[block_num / 8] >> (block_num % 8)) & 1\<close>, the expression
  \<open>show_map\<close> prints for each block.\<close>

definition check_block_status :: "bitmap \<Rightarrow> int \<Rightarrow> error + int" where
  "check_block_status m block_num =
     (let byte_position = block_num div BITS_IN_BYTE;
          bit_offset = block_num mod BITS_IN_BYTE
      in if in_map m byte_position
         then Inr (uint (drop_bit (nat bit_offset) (m ! nat byte_position) AND 1))
         else Inl OutOfBounds)"

text \<open>The inner loop of \<open>allocate_contiguous\<close>:
  \<open>for (j = 0; j < need; j++) map[(begin + j) / 8] |= 1 << ((begin + j) % 8)\<close>.\<close>

function mark_used :: "bitmap \<Rightarrow> int \<Rightarrow> int \<Rightarrow> int \<Rightarrow> error + bitmap" where
  "mark_used m need begin j =
     (if j < need then
        (let blk = begin + j;
             b = blk div BITS_IN_BYTE;
             bt = blk mod BITS_IN_BYTE
         in if in_map m b
            then mark_used (m[nat b := (m ! nat b) OR push_bit (nat bt) 1]) need begin (j + 1)
            else Inl OutOfBounds)
      else Inr m)"
  by pat_completeness auto
termination
  by (relation "measure (\<lambda>(m, need, begin, j). nat (need - j))") auto

declare mark_used.simps [simp del]

text \<open>The scanning loop of \<open>allocate_contiguous\<close>, from block \<open>i\<close> on, with the running
  count \<open>seq\<close> of consecutive free blocks and the start \<open>begin\<close> of the current run.
  The result is the map and the returned \<open>int\<close> (\<open>-1\<close> when the scan ends without a run).\<close>

function scan :: "bitmap \<Rightarrow> int \<Rightarrow> int \<Rightarrow> int \<Rightarrow> int \<Rightarrow> error + (bitmap \<times> int)" where
  "scan m need i seq begin =
     (if i < BLOCK_COUNT then
        (let by = i div BITS_IN_BYTE;
             bi = i mod BITS_IN_BYTE
         in if \<not> in_map m by then Inl OutOfBounds
            else if (m ! nat by) AND push_bit (nat bi) 1 = 0 then
              (let begin1 = (if seq = 0 then i else begin);
                   seq1 = seq + 1
               in if seq1 = need
                  then (case mark_used m need begin1 0 of
                          Inl e \<Rightarrow> Inl e
                        | Inr m1 \<Rightarrow> Inr (m1, begin1))
                  else scan m need (i + 1) seq1 begin1)
            else scan m need (i + 1) 0 (- 1))
      else Inr (m, - 1))"
  by pat_completeness auto
termination
  by (relation "measure (\<lambda>(m, need, i, seq, begin). nat (BLOCK_COUNT - i))") auto

declare scan.simps [simp del]

definition allocate_contiguous :: "bitmap \<Rightarrow> int \<Rightarrow> error + (bitmap \<times> int)" where
  "allocate_contiguous m need =
     (if need \<le> 0 \<or> need > BLOCK_COUNT then Inr (m, - 1)
      else scan m need 0 0 (- 1))"

text \<open>\<open>free_contiguous\<close>:
  \<open>for (i = 0; i < cnt; i++) map[(start + i) / 8] &= ~(1 << ((start + i) % 8))\<close>.\<close>

function free_loop :: "bitmap \<Rightarrow> int \<Rightarrow> int \<Rightarrow> int \<Rightarrow> error + bitmap" where
  "free_loop m start cnt i =
     (if i < cnt then
        (let blk = start + i;
             by = blk div BITS_IN_BYTE;
             bi = blk mod BITS_IN_BYTE
         in if in_map m by
            then free_loop (m[nat by := (m ! nat by) AND NOT (push_bit (nat bi) 1)]) start cnt (i + 1)
            else Inl OutOfBounds)
      else Inr m)"
  by pat_completeness auto
termination
  by (relation "measure (\<lambda>(m, start, cnt, i). nat (cnt - i))") auto

declare free_loop.simps [simp del]

definition free_contiguous :: "bitmap \<Rightarrow> int \<Rightarrow> int \<Rightarrow> error + bitmap" where
  "free_contiguous m start cnt = free_loop m start cnt 0"

subsection \<open>Linked free-list allocator\<close>

definition MAX_BLOCKS :: int where
  "MAX_BLOCKS = 64"

definition NO_BLOCK :: int where
  "NO_BLOCK = - 1"

text \<open>\<open>typedef struct { char info[30]; int nxt; } BlockNode;\<close> The payload \<open>info\<close> is
  never read, and never written by the allocator of
  \<open>ai-generated-linked-list-allocation-code-in-C.c\<close> (the second copy, which calls the
  field \<open>some_data\<close> and gives it 32 characters, writes a label into it when it initialises
  or allocates a block: see \<open>allocate_file_blocks\<close> below).\<close>

record BlockNode =
  info :: string
  nxt :: int

text \<open>The two globals \<open>BlockNode storage[MAX_BLOCKS]\<close> and \<open>int free_start\<close>.\<close>

record pool =
  storage :: "BlockNode list"
  free_start :: int

text \<open>The globals as C initialises them before \<open>main\<close> runs: zeroed nodes, and
  \<open>free_start = NO_BLOCK\<close>.\<close>

definition initial_pool :: pool where
  "initial_pool =
     \<lparr>storage = replicate (nat MAX_BLOCKS) \<lparr>info = [], nxt = 0\<rparr>, free_start = NO_BLOCK\<rparr>"

definition in_storage :: "pool \<Rightarrow> int \<Rightarrow> bool" where
  "in_storage p i = (0 \<le> i \<and> i < int (length (storage p)))"

text \<open>\<open>storage[i].nxt = v\<close>\<close>

definition set_nxt :: "pool \<Rightarrow> int \<Rightarrow> int \<Rightarrow> pool" where
  "set_nxt p i v = p\<lparr>storage := (storage p)[nat i := (storage p ! nat i)\<lparr>nxt := v\<rparr>]\<rparr>"

text \<open>\<open>storage[i].nxt\<close>\<close>

definition get_nxt :: "pool \<Rightarrow> int \<Rightarrow> int" where
  "get_nxt p i = nxt (storage p ! nat i)"

text \<open>The loop of \<open>setup\<close>: block \<open>idx\<close> points to \<open>idx + 1\<close>, the last one to
  \<open>NO_BLOCK\<close>.\<close>

function setup_loop :: "pool \<Rightarrow> int \<Rightarrow> error + pool" where
  "setup_loop p idx =
     (if idx < MAX_BLOCKS then
        (if \<not> in_storage p idx then Inl OutOfBounds
         else if idx < MAX_BLOCKS - 1
         then setup_loop (set_nxt p idx (idx + 1)) (idx + 1)
         else setup_loop (set_nxt p idx NO_BLOCK) (idx + 1))
      else Inr p)"
  by pat_completeness auto
termination
  by (relation "measure (\<lambda>(p, idx). nat (MAX_BLOCKS - idx))") auto

declare setup_loop.simps [simp del]

text \<open>\<open>setup\<close> (named \<open>setup_pool\<close> here, \<open>setup\<close> being a reserved word).\<close>

definition setup_pool :: "pool \<Rightarrow> error + pool" where
  "setup_pool p =
     (case setup_loop p 0 of
        Inl e \<Rightarrow> Inl e
      | Inr p1 \<Rightarrow> Inr (p1\<lparr>free_start := 0\<rparr>))"

text \<open>\<open>get_one_block\<close> pops the head of the free list and detaches it.\<close>

definition get_one_block :: "pool \<Rightarrow> error + (pool \<times> int)" where
  "get_one_block p =
     (if free_start p = NO_BLOCK then Inr (p, NO_BLOCK)
      else if \<not> in_storage p (free_start p) then Inl OutOfBounds
      else
        (let taken = free_start p;
             p1 = p\<lparr>free_start := get_nxt p (free_start p)\<rparr>;
             p2 = set_nxt p1 taken NO_BLOCK
         in Inr (p2, taken)))"

text \<open>The rollback loop of \<open>get_blocks\<close>:
  \<open>while (first != NO_BLOCK) { nxt = storage[first].nxt; storage[first].nxt = free_start;
  free_start = first; first = nxt; }\<close>.
  It walks pointers of a chain that the caller's state determines, so nothing bounds the
  number of its steps by construction: \<open>None\<close> is the loop that does not end.\<close>

partial_function (option) rollback :: "pool \<Rightarrow> int \<Rightarrow> (error + pool) option" where
  "rollback p first =
     (if first \<noteq> NO_BLOCK then
        (if \<not> in_storage p first then Some (Inl OutOfBounds)
         else
           (let nx = get_nxt p first;
                p1 = set_nxt p first (free_start p);
                p2 = p1\<lparr>free_start := first\<rparr>
            in rollback p2 nx))
      else Some (Inr p))"

declare rollback.simps [code]

text \<open>The \<open>for\<close> loop of \<open>get_blocks\<close>, at counter \<open>cnt\<close>, with the head \<open>first\<close> and the
  tail \<open>prev\<close> of the chain built so far.\<close>

function get_blocks_loop ::
    "pool \<Rightarrow> int \<Rightarrow> int \<Rightarrow> int \<Rightarrow> int \<Rightarrow> (error + (pool \<times> int)) option" where
  "get_blocks_loop p num cnt first prev =
     (if cnt < num then
        (case get_one_block p of
           Inl e \<Rightarrow> Some (Inl e)
         | Inr (p1, newb) \<Rightarrow>
             if newb = NO_BLOCK then
               (case rollback p1 first of
                  None \<Rightarrow> None
                | Some (Inl e) \<Rightarrow> Some (Inl e)
                | Some (Inr p2) \<Rightarrow> Some (Inr (p2, NO_BLOCK)))
             else if prev \<noteq> NO_BLOCK then
               (if \<not> in_storage p1 prev then Some (Inl OutOfBounds)
                else get_blocks_loop (set_nxt p1 prev newb) num (cnt + 1) first newb)
             else get_blocks_loop p1 num (cnt + 1) newb newb)
      else Some (Inr (p, first)))"
  by pat_completeness auto
termination
  by (relation "measure (\<lambda>(p, num, cnt, first, prev). nat (num - cnt))") auto

declare get_blocks_loop.simps [simp del]

definition get_blocks :: "pool \<Rightarrow> int \<Rightarrow> (error + (pool \<times> int)) option" where
  "get_blocks p num =
     (if num \<le> 0 then Some (Inr (p, NO_BLOCK))
      else get_blocks_loop p num 0 NO_BLOCK NO_BLOCK)"

text \<open>The walk of \<open>release_blocks\<close>:
  \<open>while (storage[cur].nxt != NO_BLOCK) { last = cur; cur = storage[cur].nxt; }\<close>;
  the result is the value of \<open>last\<close> (here \<open>last_blk\<close>) when the loop ends.\<close>

partial_function (option) find_last :: "pool \<Rightarrow> int \<Rightarrow> int \<Rightarrow> (error + int) option" where
  "find_last p cur last_blk =
     (if \<not> in_storage p cur then Some (Inl OutOfBounds)
      else if get_nxt p cur \<noteq> NO_BLOCK then find_last p (get_nxt p cur) cur
      else Some (Inr last_blk))"

declare find_last.simps [code]

definition release_blocks :: "pool \<Rightarrow> int \<Rightarrow> (error + pool) option" where
  "release_blocks p begin =
     (if begin = NO_BLOCK then Some (Inr p)
      else
        (case find_last p begin begin of
           None \<Rightarrow> None
         | Some (Inl e) \<Rightarrow> Some (Inl e)
         | Some (Inr last_blk) \<Rightarrow>
             if \<not> in_storage p last_blk then Some (Inl OutOfBounds)
             else Some (Inr ((set_nxt p last_blk (free_start p))\<lparr>free_start := begin\<rparr>))))"

subsection \<open>The second copy of the sources\<close>

text \<open>The second copy of the bitmap allocator is the first one with other identifiers, and
  so are \<open>grab_one_free_block\<close> and \<open>free_up_file_blocks\<close> of the second linked-list
  allocator (with \<open>END_MARKER\<close> for \<open>NO_BLOCK\<close>, \<open>my_disk\<close> for \<open>storage\<close>,
  \<open>first_free_block\<close> for \<open>free_start\<close>): the same definitions model them.\<close>

abbreviation (input) find_and_take_blocks :: "bitmap \<Rightarrow> int \<Rightarrow> error + (bitmap \<times> int)" where
  "find_and_take_blocks \<equiv> allocate_contiguous"

abbreviation (input) give_back_blocks :: "bitmap \<Rightarrow> int \<Rightarrow> int \<Rightarrow> error + bitmap" where
  "give_back_blocks \<equiv> free_contiguous"

abbreviation (input) grab_one_free_block :: "pool \<Rightarrow> error + (pool \<times> int)" where
  "grab_one_free_block \<equiv> get_one_block"

abbreviation (input) free_up_file_blocks :: "pool \<Rightarrow> int \<Rightarrow> (error + pool) option" where
  "free_up_file_blocks \<equiv> release_blocks"

text \<open>\<open>allocate_file_blocks\<close> differs from \<open>get_blocks\<close>: it also labels the payload of each
  block it takes.\<close>

text \<open>\<open>printf\<close>'s \<open>%d\<close>: the decimal digits of an \<open>int\<close>, with a sign when negative.\<close>

function decimal :: "nat \<Rightarrow> string" where
  "decimal n =
     (if n < 10 then [char_of (48 + n)]
      else decimal (n div 10) @ [char_of (48 + n mod 10)])"
  by pat_completeness auto
termination
  by (relation "measure id") auto

declare decimal.simps [simp del]

definition print_d :: "int \<Rightarrow> string" where
  "print_d i = (if i < 0 then CHR ''-'' # decimal (nat (- i)) else decimal (nat i))"

text \<open>\<open>snprintf(my_disk[i].some_data, 32, \<dots>)\<close> stores the text \<open>s\<close>, cut to 31 characters
  by the caller below; the payload field is the \<open>info\<close> of the record.\<close>

definition set_some_data :: "pool \<Rightarrow> int \<Rightarrow> string \<Rightarrow> pool" where
  "set_some_data p i s = p\<lparr>storage := (storage p)[nat i := (storage p ! nat i)\<lparr>info := s\<rparr>]\<rparr>"

text \<open>The \<open>for\<close> loop of \<open>allocate_file_blocks\<close>: the loop of \<open>get_blocks\<close> with the label
  \<open>snprintf(my_disk[new_block].some_data, 32, "file-data-%d", i)\<close> written into each block
  taken.\<close>

function allocate_file_blocks_loop ::
    "pool \<Rightarrow> int \<Rightarrow> int \<Rightarrow> int \<Rightarrow> int \<Rightarrow> (error + (pool \<times> int)) option" where
  "allocate_file_blocks_loop p how_many_needed i first_block_of_file previous_block =
     (if i < how_many_needed then
        (case get_one_block p of
           Inl e \<Rightarrow> Some (Inl e)
         | Inr (p1, new_block) \<Rightarrow>
             if new_block = NO_BLOCK then
               (case rollback p1 first_block_of_file of
                  None \<Rightarrow> None
                | Some (Inl e) \<Rightarrow> Some (Inl e)
                | Some (Inr p2) \<Rightarrow> Some (Inr (p2, NO_BLOCK)))
             else
               (let p2 = set_some_data p1 new_block (take 31 (''file-data-'' @ print_d i))
                in if previous_block \<noteq> NO_BLOCK then
                     (if \<not> in_storage p2 previous_block then Some (Inl OutOfBounds)
                      else allocate_file_blocks_loop (set_nxt p2 previous_block new_block)
                             how_many_needed (i + 1) first_block_of_file new_block)
                   else allocate_file_blocks_loop p2 how_many_needed (i + 1) new_block new_block))
      else Some (Inr (p, first_block_of_file)))"
  by pat_completeness auto
termination
  by (relation "measure (\<lambda>(p, n, i, f, pr). nat (n - i))") auto

declare allocate_file_blocks_loop.simps [simp del]

definition allocate_file_blocks :: "pool \<Rightarrow> int \<Rightarrow> (error + (pool \<times> int)) option" where
  "allocate_file_blocks p how_many_needed =
     (if how_many_needed \<le> 0 then Some (Inr (p, NO_BLOCK))
      else allocate_file_blocks_loop p how_many_needed 0 NO_BLOCK NO_BLOCK)"

subsection \<open>Views of the state that the statements use\<close>

text \<open>Bit \<open>k mod 8\<close> of byte \<open>k div 8\<close>: block \<open>k\<close> is used.\<close>

definition bitof :: "bitmap \<Rightarrow> int \<Rightarrow> bool" where
  "bitof m k = bit (m ! nat (k div 8)) (nat (k mod 8))"

definition runb :: "bitmap \<Rightarrow> int \<Rightarrow> int \<Rightarrow> bool" where
  "runb m s n = (0 \<le> s \<and> s + n \<le> 64 \<and> (\<forall>k. s \<le> k \<and> k < s + n \<longrightarrow> \<not> bitof m k))"

text \<open>The \<open>need\<close> blocks from \<open>start\<close> on lie in the pool and \<open>check_block_status\<close> reports each
  of them free.\<close>

definition run_free :: "bitmap \<Rightarrow> int \<Rightarrow> int \<Rightarrow> bool" where
  "run_free m start need =
     (0 \<le> start \<and> start + need \<le> BLOCK_COUNT \<and>
      (\<forall>j \<in> {start ..< start + need}. check_block_status m j = Inr 0))"

text \<open>\<open>chain st h xs\<close>: following \<open>nxt\<close> from \<open>h\<close> visits exactly the blocks \<open>xs\<close>, in this
  order, each inside the array, and then reaches \<open>NO_BLOCK\<close>. With \<open>h = free_start\<close> the
  list \<open>xs\<close> is the free list; with \<open>h\<close> a handle it is the chain of an allocation.\<close>

fun chain :: "BlockNode list \<Rightarrow> int \<Rightarrow> int list \<Rightarrow> bool" where
  "chain st h [] = (h = NO_BLOCK)"
| "chain st h (x # xs) =
     (h = x \<and> 0 \<le> x \<and> x < int (length st) \<and> chain st (nxt (st ! nat x)) xs)"

text \<open>What a call leaves alone: the size of the array, every payload, and every node
  outside the given blocks.\<close>

definition frame :: "pool \<Rightarrow> pool \<Rightarrow> int list \<Rightarrow> bool" where
  "frame p p' xs =
     (length (storage p') = length (storage p) \<and>
      map info (storage p') = map info (storage p) \<and>
      (\<forall>i. 0 \<le> i \<and> i \<notin> set xs \<longrightarrow> storage p' ! nat i = storage p ! nat i))"

text \<open>The blocks on the free list: the blocks that are free.\<close>

definition free_set :: "pool \<Rightarrow> int set" where
  "free_set p = {i. \<exists>xs. chain (storage p) (free_start p) xs \<and> i \<in> set xs}"

text \<open>The pool that \<open>setup\<close> leaves when it runs on the initial globals: the free list
  is \<open>0, 1, \<dots>, 63\<close>.\<close>

definition fresh_pool :: pool where
  "fresh_pool =
     \<lparr>storage = map (\<lambda>i. \<lparr>info = [], nxt = (if i < MAX_BLOCKS - 1 then i + 1 else NO_BLOCK)\<rparr>)
                    [0 .. MAX_BLOCKS - 1],
      free_start = 0\<rparr>"

subsection \<open>Request sequences\<close>

text \<open>A sequence of requests in the way the tests of both files issue them: they keep the
  value each allocation returned (\<open>allocs[i]\<close>, and \<open>sizes[i]\<close> for the bitmap) and later
  free allocation number \<open>k\<close> when its value is not \<open>-1\<close>. \<open>Release k\<close> frees what the
  \<open>k\<close>-th \<open>Allocate\<close> of the sequence returned. The observable result of a sequence is the
  list that tells, for each \<open>Allocate\<close> in turn, whether it succeeded.\<close>

datatype request = Allocate int | Release nat

fun run_bitmap :: "bitmap \<Rightarrow> (int \<times> int) list \<Rightarrow> request list \<Rightarrow> error + bool list" where
  "run_bitmap m allocs [] = Inr []"
| "run_bitmap m allocs (Allocate need # rs) =
     (case allocate_contiguous m need of
        Inl e \<Rightarrow> Inl e
      | Inr (m1, h) \<Rightarrow>
          (case run_bitmap m1 (allocs @ [(h, need)]) rs of
             Inl e \<Rightarrow> Inl e
           | Inr out \<Rightarrow> Inr ((h \<noteq> - 1) # out)))"
| "run_bitmap m allocs (Release k # rs) =
     (if k < length allocs \<and> fst (allocs ! k) \<noteq> - 1
      then (case free_contiguous m (fst (allocs ! k)) (snd (allocs ! k)) of
              Inl e \<Rightarrow> Inl e
            | Inr m1 \<Rightarrow> run_bitmap m1 allocs rs)
      else run_bitmap m allocs rs)"

fun run_list :: "pool \<Rightarrow> int list \<Rightarrow> request list \<Rightarrow> (error + bool list) option" where
  "run_list p allocs [] = Some (Inr [])"
| "run_list p allocs (Allocate num # rs) =
     (case get_blocks p num of
        None \<Rightarrow> None
      | Some (Inl e) \<Rightarrow> Some (Inl e)
      | Some (Inr (p1, h)) \<Rightarrow>
          (case run_list p1 (allocs @ [h]) rs of
             None \<Rightarrow> None
           | Some (Inl e) \<Rightarrow> Some (Inl e)
           | Some (Inr out) \<Rightarrow> Some (Inr ((h \<noteq> NO_BLOCK) # out))))"
| "run_list p allocs (Release k # rs) =
     (if k < length allocs \<and> allocs ! k \<noteq> NO_BLOCK
      then (case release_blocks p (allocs ! k) of
              None \<Rightarrow> None
            | Some (Inl e) \<Rightarrow> Some (Inl e)
            | Some (Inr p1) \<Rightarrow> run_list p1 allocs rs)
      else run_list p allocs rs)"

section \<open>The bitmap allocator: bits and loops\<close>


lemma bit_single: "bit (push_bit n (1::8 word)) k = (k = n \<and> n < 8)"
  by (auto simp: bit_exp_iff possible_bit_word)

lemma test_free_iff: "((w::8 word) AND push_bit n 1 = 0) = (\<not> bit w n)"
proof
  assume h: "w AND push_bit n 1 = 0"
  show "\<not> bit w n"
  proof
    assume b: "bit w n"
    then have "n < 8" by (auto dest: bit_imp_le_length)
    with b have "bit (w AND push_bit n 1) n" by (simp only: bit_and_iff bit_single)
    with h show False by simp
  qed
next
  assume "\<not> bit w n"
  then have "\<not> bit (w AND push_bit n 1) k" for k
    by (auto simp only: bit_and_iff bit_single)
  then show "w AND push_bit n 1 = 0"
    by (intro bit_eqI) simp
qed

lemma status_bit: "uint (drop_bit n (w::8 word) AND 1) = (if bit w n then 1 else 0)"
  by (simp add: and_one_eq mod_2_eq_odd bit_iff_odd_drop_bit)

lemma bit_set_iff: "bit ((w::8 word) OR push_bit n 1) k = (bit w k \<or> (k = n \<and> n < 8))"
  by (simp only: bit_or_iff bit_single)

lemma bit_clear_iff: "bit ((w::8 word) AND NOT (push_bit n 1)) k = (bit w k \<and> k \<noteq> n)"
  by (auto simp add: bit_and_iff bit_not_iff bit_single possible_bit_word simp del: push_bit_of_1 dest: bit_imp_le_length)

lemma bitmap_ext:
  assumes "length m = 8" "length m' = 8"
    and "\<And>k. 0 \<le> k \<Longrightarrow> k < 64 \<Longrightarrow> bitof m k = bitof m' k"
  shows "m = m'"
proof (rule nth_equalityI)
  show "length m = length m'" using assms by simp
next
  fix b assume b: "b < length m"
  show "m ! b = m' ! b"
  proof (rule bit_eqI)
    fix n assume "possible_bit TYPE(8 word) n"
    then have n: "n < 8" by (simp add: possible_bit_word)
    have "bitof m (int (8 * b + n)) = bitof m' (int (8 * b + n))"
      using assms(1) b n by (intro assms(3)) auto
    moreover have "nat (int (8 * b + n) div 8) = b" "nat (int (8 * b + n) mod 8) = n"
      using n by auto
    ultimately show "bit (m ! b) n = bit (m' ! b) n"
      by (simp only: bitof_def)
  qed
qed

lemma bitof_set:
  assumes "0 \<le> blk" "blk < 8 * int (length m)" "0 \<le> k"
  shows "bitof (m[nat (blk div 8) := (m ! nat (blk div 8)) OR push_bit (nat (blk mod 8)) 1]) k
         = (bitof m k \<or> k = blk)"
proof -
  have len: "nat (blk div 8) < length m" using assms by auto
  show ?thesis
  proof (cases "k div 8 = blk div 8")
    case True
    have "(k = blk) = (nat (k mod 8) = nat (blk mod 8))"
      using True assms by (auto simp: nat_eq_iff) (metis mult_div_mod_eq)
    moreover have "nat (blk mod 8) < 8" by simp
    ultimately show ?thesis using True len
      by (simp only: bitof_def nth_list_update_eq bit_set_iff) simp
  next
    case False
    then have "nat (k div 8) \<noteq> nat (blk div 8)" "k \<noteq> blk"
      using assms by (auto simp: nat_eq_iff)
    then show ?thesis by (simp add: bitof_def del: push_bit_of_1)
  qed
qed


lemma bitof_clear:
  assumes "0 \<le> blk" "blk < 8 * int (length m)" "0 \<le> k"
  shows "bitof (m[nat (blk div 8) := (m ! nat (blk div 8)) AND NOT (push_bit (nat (blk mod 8)) 1)]) k
         = (bitof m k \<and> k \<noteq> blk)"
proof -
  have len: "nat (blk div 8) < length m" using assms by auto
  show ?thesis
  proof (cases "k div 8 = blk div 8")
    case True
    have "(k = blk) = (nat (k mod 8) = nat (blk mod 8))"
      using True assms by (auto simp: nat_eq_iff) (metis mult_div_mod_eq)
    then show ?thesis using True len
      by (simp only: bitof_def nth_list_update_eq bit_clear_iff)
  next
    case False
    then have "nat (k div 8) \<noteq> nat (blk div 8)" "k \<noteq> blk"
      using assms by (auto simp: nat_eq_iff)
    then show ?thesis by (simp add: bitof_def del: push_bit_of_1)
  qed
qed

lemma in_map_iff: "in_map m (blk div BITS_IN_BYTE) = (0 \<le> blk \<and> blk < 8 * int (length m))"
  by (auto simp: in_map_def BITS_IN_BYTE_def)

lemma mark_used_spec:
  "length m = 8 \<Longrightarrow> 0 \<le> begin \<Longrightarrow> 0 \<le> j \<Longrightarrow> begin + need \<le> 64 \<Longrightarrow>
   \<exists>m'. mark_used m need begin j = Inr m' \<and> length m' = 8 \<and>
        (\<forall>k. 0 \<le> k \<longrightarrow> bitof m' k = (bitof m k \<or> (begin + j \<le> k \<and> k < begin + need)))"
proof (induction m need "begin" j rule: mark_used.induct)
  case (1 m need begin' j)
  show ?case
  proof (cases "j < need")
    case False
    then show ?thesis using "1.prems" by (subst mark_used.simps) auto
  next
    case True
    let ?blk = "begin' + j"
    let ?m1 = "m[nat (?blk div 8) := (m ! nat (?blk div 8)) OR push_bit (nat (?blk mod 8)) 1]"
    have inb: "0 \<le> ?blk" "?blk < 8 * int (length m)" using 1 True by auto
    then have im: "in_map m (?blk div BITS_IN_BYTE)" by (simp only: in_map_iff)
    have step: "mark_used m need begin' j = mark_used ?m1 need begin' (j + 1)"
      using True im by (subst mark_used.simps) (simp add: Let_def BITS_IN_BYTE_def del: push_bit_of_1)
    have "\<exists>m'. mark_used ?m1 need begin' (j + 1) = Inr m' \<and> length m' = 8 \<and>
        (\<forall>k. 0 \<le> k \<longrightarrow> bitof m' k = (bitof ?m1 k \<or> (begin' + (j + 1) \<le> k \<and> k < begin' + need)))"
      using "1.IH"[OF True refl refl refl im] "1.prems" by (simp add: BITS_IN_BYTE_def del: push_bit_of_1)
    then obtain m' where m': "mark_used ?m1 need begin' (j + 1) = Inr m'" "length m' = 8"
        "\<And>k. 0 \<le> k \<Longrightarrow> bitof m' k = (bitof ?m1 k \<or> (begin' + (j + 1) \<le> k \<and> k < begin' + need))"
      by blast
    have "bitof m' k = (bitof m k \<or> (begin' + j \<le> k \<and> k < begin' + need))" if "0 \<le> k" for k
      using m'(3)[OF that] bitof_set[OF inb that] True by auto
    with m' step show ?thesis by auto
  qed
qed

lemma free_loop_spec:
  "length m = 8 \<Longrightarrow> 0 \<le> start \<Longrightarrow> 0 \<le> i \<Longrightarrow> start + cnt \<le> 64 \<Longrightarrow>
   \<exists>m'. free_loop m start cnt i = Inr m' \<and> length m' = 8 \<and>
        (\<forall>k. 0 \<le> k \<longrightarrow> bitof m' k = (bitof m k \<and> \<not> (start + i \<le> k \<and> k < start + cnt)))"
proof (induction m start cnt i rule: free_loop.induct)
  case (1 m start cnt i)
  show ?case
  proof (cases "i < cnt")
    case False
    then show ?thesis using "1.prems" by (subst free_loop.simps) auto
  next
    case True
    let ?blk = "start + i"
    let ?m1 = "m[nat (?blk div 8) := (m ! nat (?blk div 8)) AND NOT (push_bit (nat (?blk mod 8)) 1)]"
    have inb: "0 \<le> ?blk" "?blk < 8 * int (length m)" using 1 True by auto
    then have im: "in_map m (?blk div BITS_IN_BYTE)" by (simp only: in_map_iff)
    have step: "free_loop m start cnt i = free_loop ?m1 start cnt (i + 1)"
      using True im by (subst free_loop.simps) (simp add: Let_def BITS_IN_BYTE_def del: push_bit_of_1)
    have "\<exists>m'. free_loop ?m1 start cnt (i + 1) = Inr m' \<and> length m' = 8 \<and>
        (\<forall>k. 0 \<le> k \<longrightarrow> bitof m' k = (bitof ?m1 k \<and> \<not> (start + (i + 1) \<le> k \<and> k < start + cnt)))"
      using "1.IH"[OF True refl refl refl im] "1.prems" by (simp add: BITS_IN_BYTE_def del: push_bit_of_1)
    then obtain m' where m': "free_loop ?m1 start cnt (i + 1) = Inr m'" "length m' = 8"
        "\<And>k. 0 \<le> k \<Longrightarrow> bitof m' k = (bitof ?m1 k \<and> \<not> (start + (i + 1) \<le> k \<and> k < start + cnt))"
      by blast
    have "bitof m' k = (bitof m k \<and> \<not> (start + i \<le> k \<and> k < start + cnt))" if "0 \<le> k" for k
      using m'(3)[OF that] bitof_clear[OF inb that] True by auto
    with m' step show ?thesis by auto
  qed
qed


lemma scan_step:
  "scan m need i seq begin =
     (if i < 64 then
        if \<not> in_map m (i div BITS_IN_BYTE) then Inl OutOfBounds
        else if \<not> bitof m i then
          (if seq + 1 = need
           then (case mark_used m need (if seq = 0 then i else begin) 0 of
                   Inl e \<Rightarrow> Inl e
                 | Inr m1 \<Rightarrow> Inr (m1, if seq = 0 then i else begin))
           else scan m need (i + 1) (seq + 1) (if seq = 0 then i else begin))
        else scan m need (i + 1) 0 (- 1)
      else Inr (m, - 1))"
  by (subst scan.simps)
     (simp only: Let_def test_free_iff bitof_def BLOCK_COUNT_def BITS_IN_BYTE_def)

lemma scan_spec:
  assumes "length m = 8" "0 \<le> i" "0 \<le> seq" "seq < need" "seq \<le> i"
    and "0 < seq \<longrightarrow> begin = i - seq"
    and "\<forall>k. i - seq \<le> k \<and> k < i \<longrightarrow> \<not> bitof m k"
    and "\<forall>s. runb m s need \<longrightarrow> i - seq \<le> s"
  shows "\<exists>m' r. scan m need i seq begin = Inr (m', r) \<and> length m' = 8 \<and>
           ((runb m r need \<and> (\<forall>s. runb m s need \<longrightarrow> r \<le> s) \<and>
             (\<forall>k. 0 \<le> k \<longrightarrow> bitof m' k = (bitof m k \<or> (r \<le> k \<and> k < r + need))))
            \<or> (r = - 1 \<and> m' = m \<and> (\<forall>s. \<not> runb m s need)))"
  using assms
proof (induction "nat (64 - i)" arbitrary: i seq "begin" rule: less_induct)
  case less
  note inv = less.prems
  show ?case
  proof (cases "i < 64")
    case False
    have "\<not> runb m s need" for s
    proof
      assume r: "runb m s need"
      then have "i - seq \<le> s" using inv by blast
      moreover have "s + need \<le> 64" using r by (simp add: runb_def)
      ultimately show False using False inv by linarith
    qed
    moreover have "scan m need i seq begin = Inr (m, - 1)"
      using False by (subst scan_step) simp
    ultimately show ?thesis using inv by blast
  next
    case True
    have im: "in_map m (i div BITS_IN_BYTE)"
      using True inv by (simp add: in_map_iff)
    show ?thesis
    proof (cases "bitof m i")
      case used: True
      have step: "scan m need i seq begin = scan m need (i + 1) 0 (- 1)"
        using True im used by (subst scan_step) simp
      have norun: "\<forall>s. runb m s need \<longrightarrow> (i + 1) - 0 \<le> s"
      proof (intro allI impI)
        fix s assume r: "runb m s need"
        then have lo: "i - seq \<le> s" using inv by blast
        show "(i + 1) - 0 \<le> s"
        proof (rule ccontr)
          assume "\<not> (i + 1) - 0 \<le> s"
          then have "s \<le> i \<and> i < s + need" using lo inv by linarith
          then have "\<not> bitof m i" using r by (simp add: runb_def)
          with used show False by simp
        qed
      qed
      have "\<exists>m' r. scan m need (i + 1) 0 (- 1) = Inr (m', r) \<and> length m' = 8 \<and>
           ((runb m r need \<and> (\<forall>s. runb m s need \<longrightarrow> r \<le> s) \<and>
             (\<forall>k. 0 \<le> k \<longrightarrow> bitof m' k = (bitof m k \<or> (r \<le> k \<and> k < r + need))))
            \<or> (r = - 1 \<and> m' = m \<and> (\<forall>s. \<not> runb m s need)))"
      proof (rule less.hyps)
        show "nat (64 - (i + 1)) < nat (64 - i)" using True by simp
        show "\<forall>s. runb m s need \<longrightarrow> (i + 1) - 0 \<le> s" by (rule norun)
      qed (use inv in auto)
      then show ?thesis by (simp only: step)
    next
      case free: False
      let ?b = "if seq = 0 then i else begin"
      have b: "?b = i - seq" using inv by auto
      show ?thesis
      proof (cases "seq + 1 = need")
        case hit: True
        have "\<exists>m'. mark_used m need (i - seq) 0 = Inr m' \<and> length m' = 8 \<and>
          (\<forall>k. 0 \<le> k \<longrightarrow> bitof m' k = (bitof m k \<or> (i - seq + 0 \<le> k \<and> k < i - seq + need)))"
          using inv True hit by (intro mark_used_spec) auto
        then obtain m' where m': "mark_used m need (i - seq) 0 = Inr m'" "length m' = 8"
          "\<forall>k. 0 \<le> k \<longrightarrow> bitof m' k = (bitof m k \<or> (i - seq \<le> k \<and> k < i - seq + need))"
          by auto
        have res: "scan m need i seq begin = Inr (m', i - seq)"
          using True im free hit m'(1) b by (subst scan_step) simp
        have "\<not> bitof m k" if "i - seq \<le> k" "k < i - seq + need" for k
        proof (cases "k = i")
          case True then show ?thesis using free by simp
        next
          case False then show ?thesis using that hit inv by auto
        qed
        then have "runb m (i - seq) need"
          using inv True hit by (auto simp: runb_def)
        then show ?thesis using res m' inv by blast
      next
        case miss: False
        have step: "scan m need i seq begin = scan m need (i + 1) (seq + 1) (i - seq)"
          using True im free miss b by (subst scan_step) simp
        have fr: "\<forall>k. (i + 1) - (seq + 1) \<le> k \<and> k < i + 1 \<longrightarrow> \<not> bitof m k"
        proof (intro allI impI)
          fix k assume k: "(i + 1) - (seq + 1) \<le> k \<and> k < i + 1"
          show "\<not> bitof m k"
          proof (cases "k = i")
            case True then show ?thesis using free by simp
          next
            case False then show ?thesis using k inv by auto
          qed
        qed
        have "\<exists>m' r. scan m need (i + 1) (seq + 1) (i - seq) = Inr (m', r) \<and> length m' = 8 \<and>
           ((runb m r need \<and> (\<forall>s. runb m s need \<longrightarrow> r \<le> s) \<and>
             (\<forall>k. 0 \<le> k \<longrightarrow> bitof m' k = (bitof m k \<or> (r \<le> k \<and> k < r + need))))
            \<or> (r = - 1 \<and> m' = m \<and> (\<forall>s. \<not> runb m s need)))"
        proof (rule less.hyps)
          show "nat (64 - (i + 1)) < nat (64 - i)" using True by simp
          show "\<forall>k. (i + 1) - (seq + 1) \<le> k \<and> k < i + 1 \<longrightarrow> \<not> bitof m k" by (rule fr)
          show "\<forall>s. runb m s need \<longrightarrow> (i + 1) - (seq + 1) \<le> s" using inv by simp
        qed (use inv miss in auto)
        then show ?thesis by (simp only: step)
      qed
    qed
  qed
qed

lemma map_size_8: "nat MAP_SIZE = 8"
  by (simp add: MAP_SIZE_def BLOCK_COUNT_def BITS_IN_BYTE_def)

lemma check_block_status_bitof:
  assumes "length m = 8" "0 \<le> k" "k < 64"
  shows "check_block_status m k = Inr (if bitof m k then 1 else 0)"
proof -
  have "in_map m (k div BITS_IN_BYTE)" using assms by (simp add: in_map_iff)
  then show ?thesis
    by (simp add: check_block_status_def Let_def status_bit bitof_def BITS_IN_BYTE_def)
qed

lemma run_free_runb:
  assumes "length m = 8"
  shows "run_free m s n = runb m s n"
proof (cases "0 \<le> s \<and> s + n \<le> 64")
  case False
  then show ?thesis by (auto simp: run_free_def runb_def BLOCK_COUNT_def)
next
  case True
  have "(check_block_status m j = Inr 0) = (\<not> bitof m j)" if "s \<le> j" "j < s + n" for j
    using that True by (simp add: check_block_status_bitof[OF assms])
  then show ?thesis using True by (auto simp: run_free_def runb_def BLOCK_COUNT_def)
qed

lemma allocate_spec:
  assumes len: "length m = 8" and need: "1 \<le> need" "need \<le> 64"
  shows "\<exists>m' r. allocate_contiguous m need = Inr (m', r) \<and> length m' = 8 \<and>
           ((runb m r need \<and> (\<forall>s. runb m s need \<longrightarrow> r \<le> s) \<and>
             (\<forall>k. 0 \<le> k \<longrightarrow> bitof m' k = (bitof m k \<or> (r \<le> k \<and> k < r + need))))
            \<or> (r = - 1 \<and> m' = m \<and> (\<forall>s. \<not> runb m s need)))"
proof -
  have "allocate_contiguous m need = scan m need 0 0 (- 1)"
    using need by (simp add: allocate_contiguous_def BLOCK_COUNT_def)
  moreover have "\<exists>m' r. scan m need 0 0 (- 1) = Inr (m', r) \<and> length m' = 8 \<and>
           ((runb m r need \<and> (\<forall>s. runb m s need \<longrightarrow> r \<le> s) \<and>
             (\<forall>k. 0 \<le> k \<longrightarrow> bitof m' k = (bitof m k \<or> (r \<le> k \<and> k < r + need))))
            \<or> (r = - 1 \<and> m' = m \<and> (\<forall>s. \<not> runb m s need)))"
    by (rule scan_spec) (use len need in \<open>auto simp: runb_def\<close>)
  ultimately show ?thesis by simp
qed

lemma allocate_fail_unchanged:
  assumes "length m = 8" "allocate_contiguous m need = Inr (m', - 1)"
  shows "m' = m"
proof (cases "need \<le> 0 \<or> need > 64")
  case True
  then show ?thesis using assms(2) by (simp add: allocate_contiguous_def BLOCK_COUNT_def)
next
  case False
  then have n: "1 \<le> need" "need \<le> 64" by auto
  show ?thesis using allocate_spec[OF assms(1) n] assms(2) by (auto simp: runb_def)
qed

lemma free_spec:
  assumes "length m = 8" "0 \<le> start" "start + cnt \<le> 64"
  shows "\<exists>m'. free_contiguous m start cnt = Inr m' \<and> length m' = 8 \<and>
        (\<forall>k. 0 \<le> k \<longrightarrow> bitof m' k = (bitof m k \<and> \<not> (start \<le> k \<and> k < start + cnt)))"
  using free_loop_spec[of m start 0 cnt] assms by (simp add: free_contiguous_def)

lemma bitmap_round_trip:
  assumes len: "length m = 8" and ok: "allocate_contiguous m need = Inr (m', h)" "h \<noteq> - 1"
  shows "free_contiguous m' h need = Inr m"
proof -
  have n: "1 \<le> need" "need \<le> 64"
    using ok by (auto simp: allocate_contiguous_def BLOCK_COUNT_def split: if_splits)
  from allocate_spec[OF len n] ok
  have len': "length m' = 8" and run: "runb m h need"
    and bits: "\<forall>k. 0 \<le> k \<longrightarrow> bitof m' k = (bitof m k \<or> (h \<le> k \<and> k < h + need))"
    by auto
  have h: "0 \<le> h" "h + need \<le> 64" using run by (auto simp: runb_def)
  obtain m2 where m2: "free_contiguous m' h need = Inr m2" "length m2 = 8"
    "\<forall>k. 0 \<le> k \<longrightarrow> bitof m2 k = (bitof m' k \<and> \<not> (h \<le> k \<and> k < h + need))"
    using free_spec[OF len' h] by blast
  have "m2 = m"
  proof (rule bitmap_ext[OF m2(2) len])
    fix k :: int assume k: "0 \<le> k" "k < 64"
    show "bitof m2 k = bitof m k"
      using m2(3) bits run k by (auto simp: runb_def)
  qed
  with m2 show ?thesis by simp
qed

section \<open>The linked free-list allocator: chains and loops\<close>

lemma chain_nonneg: "chain st h xs \<Longrightarrow> x \<in> set xs \<Longrightarrow> 0 \<le> x \<and> x < int (length st)"
  by (induction xs arbitrary: h) auto

lemma chain_head: "chain st h xs \<Longrightarrow> h = (if xs = [] then NO_BLOCK else hd xs)"
  by (cases xs) auto

lemma chain_unique: "chain st h xs \<Longrightarrow> chain st h ys \<Longrightarrow> xs = ys"
proof (induction xs arbitrary: h ys)
  case Nil
  then show ?case by (cases ys) (auto simp: NO_BLOCK_def)
next
  case (Cons x xs)
  then show ?case by (cases ys) (auto simp: NO_BLOCK_def)
qed

lemma chain_append:
  "chain st h (xs @ ys) \<Longrightarrow> xs \<noteq> [] \<Longrightarrow> chain st (nxt (st ! nat (last xs))) ys"
  by (induction xs arbitrary: h) (auto split: if_splits)

lemma chain_distinct: "chain st h xs \<Longrightarrow> distinct xs"
proof (induction xs arbitrary: h)
  case Nil
  then show ?case by simp
next
  case (Cons x xs)
  have tl: "chain st (nxt (st ! nat x)) xs" using Cons.prems by simp
  have "x \<notin> set xs"
  proof
    assume "x \<in> set xs"
    then obtain as bs where xs: "xs = as @ x # bs" by (auto simp: in_set_conv_decomp)
    have "chain st (nxt (st ! nat x)) ((as @ [x]) @ bs)" using tl xs by simp
    then have "chain st (nxt (st ! nat (last (as @ [x])))) bs"
      by (rule chain_append) simp
    then have "chain st (nxt (st ! nat x)) bs" by simp
    with tl have "xs = bs" by (rule chain_unique)
    with xs show False by simp
  qed
  with Cons.IH[OF tl] show ?case by simp
qed

lemma chain_update_other:
  "0 \<le> i \<Longrightarrow> i \<notin> set xs \<Longrightarrow> chain (st[nat i := v]) h xs = chain st h xs"
proof (induction xs arbitrary: h)
  case Nil
  then show ?case by simp
next
  case (Cons x xs)
  show ?case
  proof (cases "0 \<le> x")
    case True
    then have "nat i \<noteq> nat x" using Cons.prems by auto
    then show ?thesis using Cons by simp
  next
    case False
    then show ?thesis by simp
  qed
qed

lemma storage_set_nxt [simp]:
  "storage (set_nxt p i v) = (storage p)[nat i := (storage p ! nat i)\<lparr>nxt := v\<rparr>]"
  by (simp add: set_nxt_def)

lemma free_start_set_nxt [simp]: "free_start (set_nxt p i v) = free_start p"
  by (simp add: set_nxt_def)

lemma get_nxt_set_nxt:
  "in_storage p i \<Longrightarrow> get_nxt (set_nxt p i v) i = v"
  by (simp add: get_nxt_def in_storage_def nat_less_iff)

lemma frame_refl: "frame p p xs"
  by (simp add: frame_def)

lemma frame_trans:
  assumes "frame p p1 xs" "frame p1 p2 ys" "set xs \<subseteq> set zs" "set ys \<subseteq> set zs"
  shows "frame p p2 zs"
proof -
  have "storage p2 ! nat i = storage p ! nat i" if "0 \<le> i" "i \<notin> set zs" for i
  proof -
    have "i \<notin> set xs" "i \<notin> set ys" using that assms(3,4) by auto
    then show ?thesis using assms(1,2) that(1) by (simp add: frame_def)
  qed
  then show ?thesis using assms(1,2) by (simp add: frame_def)
qed

lemma map_info_update: "map info (st[n := (st ! n)\<lparr>nxt := v\<rparr>]) = map info st"
  by (cases "n < length st") (simp_all add: map_update list_update_same_conv list_update_beyond)

lemma frame_set_nxt: "0 \<le> i \<Longrightarrow> i \<in> set xs \<Longrightarrow> frame p (set_nxt p i v) xs"
proof -
  assume i: "0 \<le> i" "i \<in> set xs"
  have "nat i \<noteq> nat k" if "0 \<le> k" "k \<notin> set xs" for k
  proof
    assume "nat i = nat k"
    then have "k = i" using that(1) i(1) by simp
    with that(2) i(2) show False by simp
  qed
  then show ?thesis by (simp add: frame_def map_info_update)
qed

lemma frame_free_start: "frame p (q\<lparr>free_start := f\<rparr>) xs = frame p q xs"
  by (simp add: frame_def)

lemma rollback_spec:
  assumes "chain (storage p) first cs" and "chain (storage p) (free_start p) fl"
    and "distinct (cs @ fl)"
  shows "\<exists>p'. rollback p first = Some (Inr p') \<and>
           chain (storage p') (free_start p') (rev cs @ fl) \<and> frame p p' cs"
  using assms
proof (induction cs arbitrary: p first fl)
  case Nil
  then show ?case by (subst rollback.simps) (simp add: frame_refl)
next
  case (Cons c cs)
  let ?p2 = "(set_nxt p c (free_start p))\<lparr>free_start := c\<rparr>"
  from Cons.prems have c: "first = c" "0 \<le> c" "c < int (length (storage p))"
    and tl: "chain (storage p) (nxt (storage p ! nat c)) cs"
    and notin: "c \<notin> set cs" "c \<notin> set fl" by auto
  have step: "rollback p first = rollback ?p2 (get_nxt p c)"
    using c by (subst rollback.simps) (simp add: NO_BLOCK_def in_storage_def Let_def)
  have 1: "chain (storage ?p2) (get_nxt p c) cs"
    using tl c notin by (simp add: chain_update_other get_nxt_def)
  have 2: "chain (storage ?p2) (free_start ?p2) (c # fl)"
    using Cons.prems(2) c notin by (simp add: chain_update_other)
  have 3: "distinct (cs @ c # fl)" using Cons.prems(3) by auto
  from Cons.IH[OF 1 2 3] obtain p' where p': "rollback ?p2 (get_nxt p c) = Some (Inr p')"
    "chain (storage p') (free_start p') (rev cs @ c # fl)" "frame ?p2 p' cs"
    by blast
  have "frame p ?p2 [c]" using c by (simp add: frame_free_start frame_set_nxt)
  then have "frame p p' (c # cs)" using p'(3) by (rule frame_trans) auto
  with p' step show ?case by simp
qed

lemma get_one_block_empty: "free_start p = NO_BLOCK \<Longrightarrow> get_one_block p = Inr (p, NO_BLOCK)"
  by (simp add: get_one_block_def)

lemma get_one_block_pop:
  assumes "chain (storage p) (free_start p) (y # ys)"
  shows "get_one_block p = Inr (set_nxt (p\<lparr>free_start := get_nxt p y\<rparr>) y NO_BLOCK, y)"
  using assms by (simp add: get_one_block_def NO_BLOCK_def in_storage_def Let_def)

lemma chain_snoc:
  assumes "chain st h xs" and "xs \<noteq> []" and "y \<notin> set xs" and "0 \<le> y" and "y < int (length st)"
    and "nxt (st ! nat y) = NO_BLOCK"
  shows "chain (st[nat (last xs) := (st ! nat (last xs))\<lparr>nxt := y\<rparr>]) h (xs @ [y])"
  using assms
proof (induction xs arbitrary: h)
  case Nil
  then show ?case by simp
next
  case (Cons x xs)
  from Cons.prems have x: "h = x" "0 \<le> x" "x < int (length st)"
    and tl: "chain st (nxt (st ! nat x)) xs" by auto
  have xy: "nat x \<noteq> nat y" using Cons.prems x by auto
  show ?case
  proof (cases "xs = []")
    case True
    then show ?thesis using x xy Cons.prems by (simp add: nat_less_iff)
  next
    case False
    have d: "distinct (x # xs)" using Cons.prems(1) by (rule chain_distinct)
    have "0 \<le> last xs" using chain_nonneg[OF tl] False by simp
    moreover have "last xs \<noteq> x" using d False by (metis distinct.simps(2) last_in_set)
    ultimately have lx: "nat (last xs) \<noteq> nat x" using x by auto
    have "chain (st[nat (last xs) := (st ! nat (last xs))\<lparr>nxt := y\<rparr>]) (nxt (st ! nat x)) (xs @ [y])"
      using Cons.IH[OF tl False] Cons.prems by simp
    then show ?thesis using x lx False by simp
  qed
qed

lemma get_blocks_loop_spec:
  assumes "chain (storage p) (free_start p) ys"
    and "chain (storage p) first taken"
    and "prev = (if taken = [] then NO_BLOCK else last taken)"
    and "distinct (taken @ ys)"
  shows "\<exists>p' r. get_blocks_loop p num cnt first prev = Some (Inr (p', r)) \<and>
           frame p p' (taken @ ys) \<and>
           (if num - cnt \<le> int (length ys)
            then chain (storage p') r (taken @ take (nat (num - cnt)) ys) \<and>
                 chain (storage p') (free_start p') (drop (nat (num - cnt)) ys)
            else r = NO_BLOCK \<and> chain (storage p') (free_start p') (rev (taken @ ys)))"
  using assms
proof (induction ys arbitrary: p cnt first prev taken)
  case Nil
  show ?case
  proof (cases "cnt < num")
    case False
    then have "get_blocks_loop p num cnt first prev = Some (Inr (p, first))"
      by (subst get_blocks_loop.simps) simp
    then show ?thesis using False Nil.prems by (simp add: frame_refl)
  next
    case True
    have fs: "free_start p = NO_BLOCK" using Nil.prems(1) by simp
    obtain p' where p': "rollback p first = Some (Inr p')"
      "chain (storage p') (free_start p') (rev taken @ [])" "frame p p' taken"
      using rollback_spec[OF Nil.prems(2) Nil.prems(1)] Nil.prems(4) by auto
    have "get_blocks_loop p num cnt first prev = Some (Inr (p', NO_BLOCK))"
      using True p'(1) by (subst get_blocks_loop.simps) (simp add: get_one_block_empty[OF fs])
    then show ?thesis using True p' by simp
  qed
next
  case (Cons y ys)
  show ?case
  proof (cases "cnt < num")
    case False
    then have "get_blocks_loop p num cnt first prev = Some (Inr (p, first))"
      by (subst get_blocks_loop.simps) simp
    then show ?thesis using False Cons.prems by (simp add: frame_refl)
  next
    case True
    let ?p2 = "set_nxt (p\<lparr>free_start := get_nxt p y\<rparr>) y NO_BLOCK"
    let ?p3 = "if taken = [] then ?p2 else set_nxt ?p2 prev y"
    let ?f = "if taken = [] then y else first"
    from Cons.prems(1) have y: "0 \<le> y" "y < int (length (storage p))"
      and tl: "chain (storage p) (get_nxt p y) ys" by (auto simp: get_nxt_def)
    have ny: "y \<notin> set ys" "y \<notin> set taken" using Cons.prems(4) by auto
    have prev: "taken \<noteq> [] \<Longrightarrow> prev = last taken \<and> 0 \<le> prev \<and> prev < int (length (storage p))
                  \<and> prev \<notin> set ys \<and> prev \<noteq> y"
      using Cons.prems(3,4) chain_nonneg[OF Cons.prems(2), of "last taken"] ny
      by (auto simp: disjoint_iff)
    have prev_no: "(prev = NO_BLOCK) = (taken = [])"
      using prev Cons.prems(3) by (auto simp: NO_BLOCK_def)
    have step: "get_blocks_loop p num cnt first prev = get_blocks_loop ?p3 num (cnt + 1) ?f y"
    proof (cases "taken = []")
      case True
      then show ?thesis using \<open>cnt < num\<close> y prev_no
        by (subst get_blocks_loop.simps) (simp add: get_one_block_pop[OF Cons.prems(1)] NO_BLOCK_def)
    next
      case False
      then show ?thesis using \<open>cnt < num\<close> y prev_no prev
        by (subst get_blocks_loop.simps)
           (simp add: get_one_block_pop[OF Cons.prems(1)] NO_BLOCK_def in_storage_def)
    qed
    have 1: "chain (storage ?p3) (free_start ?p3) ys"
      using tl y ny prev by (auto simp: chain_update_other)
    have 2: "chain (storage ?p3) ?f (taken @ [y])"
    proof (cases "taken = []")
      case True
      then show ?thesis using y by (simp add: NO_BLOCK_def nat_less_iff)
    next
      case False
      have a: "chain (storage ?p2) first taken"
        using Cons.prems(2) y ny by (simp add: chain_update_other)
      have b: "nxt (storage ?p2 ! nat y) = NO_BLOCK" using y by (simp add: nat_less_iff)
      have "chain ((storage ?p2)[nat (last taken) := (storage ?p2 ! nat (last taken))\<lparr>nxt := y\<rparr>])
              first (taken @ [y])"
        using a False ny(2) y(1) _ b by (rule chain_snoc) (use y in simp)
      then show ?thesis using False prev by simp
    qed
    have 3: "y = (if taken @ [y] = [] then NO_BLOCK else last (taken @ [y]))" by simp
    have 4: "distinct ((taken @ [y]) @ ys)" using Cons.prems(4) by auto
    from Cons.IH[OF 1 2 3 4, of "cnt + 1"] obtain p' r where
      res: "get_blocks_loop ?p3 num (cnt + 1) ?f y = Some (Inr (p', r))"
      and fr: "frame ?p3 p' ((taken @ [y]) @ ys)"
      and post: "if num - (cnt + 1) \<le> int (length ys)
            then chain (storage p') r ((taken @ [y]) @ take (nat (num - (cnt + 1))) ys) \<and>
                 chain (storage p') (free_start p') (drop (nat (num - (cnt + 1))) ys)
            else r = NO_BLOCK \<and> chain (storage p') (free_start p') (rev ((taken @ [y]) @ ys))"
      by blast
    have "frame p ?p2 (taken @ y # ys)"
      using y frame_set_nxt[of y "taken @ y # ys" "p\<lparr>free_start := get_nxt p y\<rparr>" NO_BLOCK]
      by (simp add: frame_def)
    moreover have "frame ?p2 ?p3 (taken @ y # ys)"
      using prev by (auto simp: frame_refl intro!: frame_set_nxt)
    ultimately have "frame p ?p3 (taken @ y # ys)" by (rule frame_trans) auto
    then have fr': "frame p p' (taken @ y # ys)" using fr by (rule frame_trans) auto
    have n: "nat (num - cnt) = Suc (nat (num - (cnt + 1)))" using True by simp
    have "if num - cnt \<le> int (length (y # ys))
            then chain (storage p') r (taken @ take (nat (num - cnt)) (y # ys)) \<and>
                 chain (storage p') (free_start p') (drop (nat (num - cnt)) (y # ys))
            else r = NO_BLOCK \<and> chain (storage p') (free_start p') (rev (taken @ y # ys))"
      using post by (simp add: n split: if_splits)
    with res fr' step show ?thesis by simp
  qed
qed

lemma free_set_chain: "chain (storage p) (free_start p) xs \<Longrightarrow> free_set p = set xs"
  by (auto simp: free_set_def dest: chain_unique)

lemma get_blocks_spec:
  assumes "chain (storage p) (free_start p) xs"
  shows "\<exists>p' r. get_blocks p num = Some (Inr (p', r)) \<and> frame p p' xs \<and>
           (if num \<le> 0 then p' = p \<and> r = NO_BLOCK
            else if num \<le> int (length xs)
            then chain (storage p') r (take (nat num) xs) \<and>
                 chain (storage p') (free_start p') (drop (nat num) xs)
            else r = NO_BLOCK \<and> chain (storage p') (free_start p') (rev xs))"
proof (cases "num \<le> 0")
  case True
  then show ?thesis by (simp add: get_blocks_def frame_refl)
next
  case False
  have d: "distinct ([] @ xs)" using chain_distinct[OF assms] by simp
  have c: "chain (storage p) NO_BLOCK []" by simp
  have e: "NO_BLOCK = (if ([]::int list) = [] then NO_BLOCK else last [])" by simp
  from get_blocks_loop_spec[OF assms c e d, of num 0]
  obtain p' r where "get_blocks_loop p num 0 NO_BLOCK NO_BLOCK = Some (Inr (p', r))"
    "frame p p' xs"
    "if num \<le> int (length xs)
     then chain (storage p') r (take (nat num) xs) \<and>
          chain (storage p') (free_start p') (drop (nat num) xs)
     else r = NO_BLOCK \<and> chain (storage p') (free_start p') (rev xs)"
    by (auto split: if_splits)
  then show ?thesis using False by (auto simp: get_blocks_def)
qed

lemma fresh_pool_setup: "setup_pool initial_pool = Inr fresh_pool"
  by code_simp

lemma fresh_pool_chain: "chain (storage fresh_pool) (free_start fresh_pool) [0 .. 63]"
  by code_simp

lemma setup_loop_spec:
  assumes "length (storage p) = 64" "0 \<le> idx" "idx \<le> 64"
  shows "\<exists>p'. setup_loop p idx = Inr p' \<and> length (storage p') = 64 \<and>
           free_start p' = free_start p \<and> map info (storage p') = map info (storage p) \<and>
           (\<forall>i. 0 \<le> i \<and> i < idx \<longrightarrow> storage p' ! nat i = storage p ! nat i) \<and>
           (\<forall>i. idx \<le> i \<and> i < 64 \<longrightarrow>
                nxt (storage p' ! nat i) = (if i < 63 then i + 1 else NO_BLOCK))"
  using assms
proof (induction "nat (64 - idx)" arbitrary: p idx)
  case 0
  then have "idx = 64" by simp
  then show ?case using "0.prems" by (subst setup_loop.simps) (simp add: MAX_BLOCKS_def)
next
  case (Suc n)
  then have lt: "idx < 64" by simp
  let ?v = "if idx < 63 then idx + 1 else NO_BLOCK"
  let ?p1 = "set_nxt p idx ?v"
  have step: "setup_loop p idx = setup_loop ?p1 (idx + 1)"
    using lt Suc.prems by (subst setup_loop.simps) (simp add: MAX_BLOCKS_def in_storage_def)
  have "\<exists>p'. setup_loop ?p1 (idx + 1) = Inr p' \<and> length (storage p') = 64 \<and>
           free_start p' = free_start ?p1 \<and> map info (storage p') = map info (storage ?p1) \<and>
           (\<forall>i. 0 \<le> i \<and> i < idx + 1 \<longrightarrow> storage p' ! nat i = storage ?p1 ! nat i) \<and>
           (\<forall>i. idx + 1 \<le> i \<and> i < 64 \<longrightarrow>
                nxt (storage p' ! nat i) = (if i < 63 then i + 1 else NO_BLOCK))"
    using Suc.hyps(2) Suc.prems lt by (intro Suc.hyps(1)) auto
  then obtain p' where p': "setup_loop ?p1 (idx + 1) = Inr p'" "length (storage p') = 64"
    "free_start p' = free_start p" "map info (storage p') = map info (storage p)"
    and low: "\<forall>i. 0 \<le> i \<and> i < idx + 1 \<longrightarrow> storage p' ! nat i = storage ?p1 ! nat i"
    and high: "\<forall>i. idx + 1 \<le> i \<and> i < 64 \<longrightarrow>
                nxt (storage p' ! nat i) = (if i < 63 then i + 1 else NO_BLOCK)"
    by (auto simp: map_info_update)
  have a: "storage p' ! nat i = storage p ! nat i" if "0 \<le> i" "i < idx" for i
  proof -
    have "nat idx \<noteq> nat i" using that by simp
    then show ?thesis using low that by simp
  qed
  have "nxt (storage p' ! nat idx) = ?v"
  proof -
    have "storage p' ! nat idx = storage ?p1 ! nat idx" using low Suc.prems(2) by simp
    moreover have "nat idx < length (storage p)" using lt Suc.prems by simp
    ultimately show ?thesis by simp
  qed
  then have b: "nxt (storage p' ! nat i) = (if i < 63 then i + 1 else NO_BLOCK)"
    if "idx \<le> i" "i < 64" for i
    using high that by (cases "i = idx") auto
  show ?case using step p' a b by simp
qed

lemma chain_upto:
  assumes "length st = 64" "0 \<le> k" "k \<le> 64"
    and "\<forall>i. k \<le> i \<and> i < 64 \<longrightarrow> nxt (st ! nat i) = (if i < 63 then i + 1 else NO_BLOCK)"
  shows "chain st (if k < 64 then k else NO_BLOCK) [k .. 63]"
  using assms
proof (induction "nat (64 - k)" arbitrary: k)
  case 0
  then show ?case by simp
next
  case (Suc n)
  then have lt: "k < 64" by simp
  have "chain st (if k + 1 < 64 then k + 1 else NO_BLOCK) [k + 1 .. 63]"
    using Suc.hyps(2) Suc.prems lt by (intro Suc.hyps(1)) auto
  moreover have "nxt (st ! nat k) = (if k + 1 < 64 then k + 1 else NO_BLOCK)"
    using Suc.prems(4) lt by auto
  moreover have "[k .. 63] = k # [k + 1 .. 63]" using lt by (simp add: upto_rec1)
  ultimately show ?case using lt Suc.prems by simp
qed

lemma setup_pool_spec:
  assumes "length (storage p) = 64"
  shows "\<exists>p0. setup_pool p = Inr p0 \<and> length (storage p0) = 64 \<and> free_start p0 = 0 \<and>
           map info (storage p0) = map info (storage p) \<and>
           chain (storage p0) (free_start p0) [0 .. 63]"
proof -
  from setup_loop_spec[OF assms, of 0] obtain p1 where p1: "setup_loop p 0 = Inr p1"
    "length (storage p1) = 64" "map info (storage p1) = map info (storage p)"
    "\<forall>i. 0 \<le> i \<and> i < 64 \<longrightarrow> nxt (storage p1 ! nat i) = (if i < 63 then i + 1 else NO_BLOCK)"
    by auto
  have "chain (storage p1) (if (0::int) < 64 then 0 else NO_BLOCK) [0 .. 63]"
    by (rule chain_upto) (use p1 in auto)
  then show ?thesis using p1 by (simp add: setup_pool_def)
qed

lemma get_blocks_fail:
  assumes "chain (storage p) (free_start p) xs" and "1 \<le> num"
    and "get_blocks p num = Some (Inr (p', NO_BLOCK))"
  shows "int (length xs) < num \<and> chain (storage p') (free_start p') (rev xs) \<and> frame p p' xs"
proof -
  from get_blocks_spec[OF assms(1), of num] assms(2,3)
  have post: "frame p p' xs"
    "if num \<le> int (length xs)
     then chain (storage p') NO_BLOCK (take (nat num) xs) \<and>
          chain (storage p') (free_start p') (drop (nat num) xs)
     else chain (storage p') (free_start p') (rev xs)"
    by (auto split: if_splits)
  have "\<not> num \<le> int (length xs)"
  proof
    assume le: "num \<le> int (length xs)"
    then have "chain (storage p') NO_BLOCK (take (nat num) xs)" using post by simp
    moreover have "take (nat num) xs \<noteq> []" using le assms(2) by auto
    ultimately show False by (cases "take (nat num) xs") (auto simp: NO_BLOCK_def)
  qed
  then show ?thesis using post by simp
qed

lemma full_map_alloc:
  "allocate_contiguous map_init BLOCK_COUNT = Inr (replicate 8 255, 0) \<and>
   allocate_contiguous (replicate 8 255) 1 = Inr (replicate 8 255, - 1)"
  by code_simp

lemma find_last_spec:
  assumes "chain (storage p) cur cs" and "cs \<noteq> []"
  shows "find_last p cur lst = Some (Inr (last (butlast (lst # cs))))"
  using assms
proof (induction cs arbitrary: cur lst)
  case Nil
  then show ?case by simp
next
  case (Cons a cs)
  from Cons.prems have a: "cur = a" "in_storage p a"
    and tl: "chain (storage p) (get_nxt p a) cs" by (auto simp: in_storage_def get_nxt_def)
  show ?case
  proof (cases cs)
    case Nil
    then have "get_nxt p a = NO_BLOCK" using tl by simp
    then show ?thesis using a Nil by (subst find_last.simps) simp
  next
    case (Cons b rest)
    then have "get_nxt p a \<noteq> NO_BLOCK" using tl by (auto simp: NO_BLOCK_def)
    then have "find_last p cur lst = find_last p (get_nxt p a) a"
      using a by (subst find_last.simps) simp
    also have "\<dots> = Some (Inr (last (butlast (a # cs))))"
      using tl Cons by (intro Cons.IH) auto
    finally show ?thesis using Cons by simp
  qed
qed

lemma chain_redirect:
  assumes "chain st h (xs @ b # rest)" and "b \<notin> set xs" and "b \<notin> set fl"
    and "chain st q fl"
  shows "chain (st[nat b := (st ! nat b)\<lparr>nxt := q\<rparr>]) h (xs @ b # fl)"
  using assms
proof (induction xs arbitrary: h)
  case Nil
  then show ?case by (simp add: chain_update_other nat_less_iff)
next
  case (Cons x xs)
  have "0 \<le> b" using chain_nonneg[OF Cons.prems(1), of b] by simp
  then have "nat b \<noteq> nat x" using Cons.prems by auto
  then show ?case using Cons by simp
qed

text \<open>What \<open>release_blocks\<close> does to a chain \<open>cs\<close>: the blocks of \<open>cs\<close> but the last one
  go to the front of the free list, and the last one only when it is the only one.\<close>

lemma release_blocks_spec:
  assumes "chain (storage p) h cs" and "cs \<noteq> []"
    and "chain (storage p) (free_start p) fl" and "distinct (cs @ fl)"
  shows "\<exists>p'. release_blocks p h = Some (Inr p') \<and> free_start p' = h \<and>
           chain (storage p') (free_start p')
             ((if length cs = 1 then cs else butlast cs) @ fl) \<and>
           frame p p' cs"
proof -
  let ?l = "last (butlast (h # cs))"
  have h: "h = hd cs" "h \<noteq> NO_BLOCK" "0 \<le> h"
    using assms(1,2) by (cases cs; auto simp: NO_BLOCK_def)+
  have l: "?l \<in> set cs"
  proof (cases "butlast cs = []")
    case True
    then show ?thesis using h assms(2) by simp
  next
    case False
    then have "?l = last (butlast cs)" by simp
    then show ?thesis using False by (metis in_set_butlastD last_in_set)
  qed
  then have lb: "0 \<le> ?l" "in_storage p ?l"
    using chain_nonneg[OF assms(1)] by (auto simp: in_storage_def)
  let ?p' = "(set_nxt p ?l (free_start p))\<lparr>free_start := h\<rparr>"
  have res: "release_blocks p h = Some (Inr ?p')"
    using h lb find_last_spec[OF assms(1,2), of h] by (simp add: release_blocks_def)
  have fr: "frame p ?p' cs" using l lb by (simp add: frame_free_start frame_set_nxt)
  have "chain (storage ?p') h ((if length cs = 1 then cs else butlast cs) @ fl)"
  proof (cases "butlast cs = []")
    case True
    then have cs: "cs = [h]" using assms(2) h(1) by (cases cs) (auto split: if_splits)
    then have "chain (storage p) h ([] @ h # [])" using assms(1) by simp
    moreover have "h \<notin> set fl" using assms(4) cs by simp
    ultimately have "chain ((storage p)[nat h := (storage p ! nat h)\<lparr>nxt := free_start p\<rparr>]) h
        ([] @ h # fl)"
      using assms(3) by (intro chain_redirect[where rest = "[]"]) auto
    then show ?thesis using cs by simp
  next
    case False
    then obtain pre b where pb: "butlast cs = pre @ [b]" by (metis rev_exhaust)
    then have cs: "cs = pre @ b # [last cs]"
      using assms(2) by (metis append_butlast_last_id append.assoc append_Cons append_Nil)
    have lb': "?l = b" using pb assms(2) by simp
    have len: "length cs \<noteq> 1" using False by (cases cs) auto
    have "chain (storage p) h (pre @ b # [last cs])" using assms(1) cs by simp
    moreover have "b \<notin> set pre" "b \<notin> set fl"
      using assms(4) cs by (metis distinct_append distinct.simps(2) not_distinct_conv_prefix append.assoc append_Cons append_Nil pb distinct_butlast, 
          metis Un_iff disjoint_iff distinct_append in_set_conv_decomp set_append)
    ultimately have "chain ((storage p)[nat b := (storage p ! nat b)\<lparr>nxt := free_start p\<rparr>]) h
        (pre @ b # fl)"
      using assms(3) by (intro chain_redirect[where rest = "[last cs]"]) auto
    then show ?thesis using len pb lb' by simp
  qed
  then show ?thesis using res fr by simp
qed

text \<open>A single block goes back whole: allocation and release of one block restore the
  pool.\<close>

lemma list_round_trip_one:
  assumes "chain (storage p) (free_start p) xs" and "xs \<noteq> []"
  shows "\<exists>p1. get_blocks p 1 = Some (Inr (p1, free_start p)) \<and>
           release_blocks p1 (free_start p) = Some (Inr p)"
proof -
  obtain y ys where xs: "xs = y # ys" using assms(2) by (cases xs) auto
  then have y: "free_start p = y" "0 \<le> y" "y < int (length (storage p))"
    using assms(1) by auto
  let ?p1 = "set_nxt (p\<lparr>free_start := get_nxt p y\<rparr>) y NO_BLOCK"
  have "chain (storage p) (free_start p) (y # ys)" using assms(1) xs by simp
  then have pop: "get_one_block p = Inr (?p1, y)" by (rule get_one_block_pop)
  have "get_blocks_loop p 1 0 NO_BLOCK NO_BLOCK = get_blocks_loop ?p1 1 1 y y"
    using y pop by (subst get_blocks_loop.simps) (simp add: NO_BLOCK_def)
  also have "\<dots> = Some (Inr (?p1, y))" by (subst get_blocks_loop.simps) simp
  finally have a: "get_blocks p 1 = Some (Inr (?p1, y))" by (simp add: get_blocks_def)
  have ins: "in_storage ?p1 y" using y by (simp add: in_storage_def)
  have "get_nxt ?p1 y = NO_BLOCK" using y by (simp add: get_nxt_def nat_less_iff)
  then have fl: "find_last ?p1 y y = Some (Inr y)"
    using ins by (subst find_last.simps) simp
  have "(set_nxt ?p1 y (free_start ?p1))\<lparr>free_start := y\<rparr> = p"
    using y by (simp add: get_nxt_def list_update_same_conv nat_less_iff)
  then have "release_blocks ?p1 y = Some (Inr p)"
    using fl ins y by (simp add: release_blocks_def NO_BLOCK_def)
  with a y show ?thesis by simp
qed

section \<open>The second copy: allocation with labels\<close>

lemma storage_set_some_data [simp]:
  "storage (set_some_data p i s) = (storage p)[nat i := (storage p ! nat i)\<lparr>info := s\<rparr>]"
  by (simp add: set_some_data_def)

lemma free_start_set_some_data [simp]: "free_start (set_some_data p i s) = free_start p"
  by (simp add: set_some_data_def)

lemma nxt_data_update: "nxt ((st[n := (st ! n)\<lparr>info := s\<rparr>]) ! k) = nxt (st ! k)"
  by (cases "n < length st"; cases "k = n") (simp_all add: list_update_beyond)

lemma chain_data_update: "chain (st[n := (st ! n)\<lparr>info := s\<rparr>]) h xs = chain st h xs"
  by (induction xs arbitrary: h) (simp_all add: nxt_data_update)

lemma info_nxt_update: "info ((st[n := (st ! n)\<lparr>nxt := v\<rparr>]) ! k) = info (st ! k)"
  by (cases "n < length st"; cases "k = n") (simp_all add: list_update_beyond)

lemma allocate_file_blocks_step:
  assumes fl: "chain (storage p) (free_start p) (y # ys)"
    and ch: "chain (storage p) first taken"
    and pv: "prev = (if taken = [] then NO_BLOCK else last taken)"
    and ds: "distinct (taken @ y # ys)"
    and lt: "cnt < num"
    and p2: "p2 = set_some_data (set_nxt (p\<lparr>free_start := get_nxt p y\<rparr>) y NO_BLOCK) y
                    (take 31 (''file-data-'' @ print_d cnt))"
    and p3: "p3 = (if taken = [] then p2 else set_nxt p2 prev y)"
    and f: "f = (if taken = [] then y else first)"
  shows "allocate_file_blocks_loop p num cnt first prev
           = allocate_file_blocks_loop p3 num (cnt + 1) f y"
    and "chain (storage p3) (free_start p3) ys"
    and "chain (storage p3) f (taken @ [y])"
    and "length (storage p3) = length (storage p)"
    and "\<forall>i. 0 \<le> i \<and> i \<notin> set (taken @ y # ys) \<longrightarrow> storage p3 ! nat i = storage p ! nat i"
    and "\<forall>x \<in> set taken. info (storage p3 ! nat x) = info (storage p ! nat x)"
    and "info (storage p3 ! nat y) = take 31 (''file-data-'' @ print_d cnt)"
proof -
  from fl have y: "0 \<le> y" "y < int (length (storage p))"
    and tl: "chain (storage p) (get_nxt p y) ys" by (auto simp: get_nxt_def)
  have ny: "y \<notin> set ys" "y \<notin> set taken" using ds by auto
  have prev: "taken \<noteq> [] \<Longrightarrow> prev = last taken \<and> 0 \<le> prev \<and> prev < int (length (storage p))
                  \<and> prev \<notin> set ys \<and> prev \<noteq> y \<and> prev \<in> set taken"
    using pv ds chain_nonneg[OF ch, of "last taken"] ny by (auto simp: disjoint_iff)
  have prev_no: "(prev = NO_BLOCK) = (taken = [])"
    using prev pv by (auto simp: NO_BLOCK_def)
  show "allocate_file_blocks_loop p num cnt first prev
           = allocate_file_blocks_loop p3 num (cnt + 1) f y"
  proof (cases "taken = []")
    case True
    then show ?thesis using lt y prev_no p2 p3 f
      by (subst allocate_file_blocks_loop.simps)
         (simp add: get_one_block_pop[OF fl] NO_BLOCK_def Let_def)
  next
    case False
    then show ?thesis using lt y prev_no prev p2 p3 f
      by (subst allocate_file_blocks_loop.simps)
         (simp add: get_one_block_pop[OF fl] NO_BLOCK_def in_storage_def Let_def)
  qed
  show "chain (storage p3) (free_start p3) ys"
    using tl y ny prev p2 p3 by (auto simp: chain_update_other chain_data_update)
  show "chain (storage p3) f (taken @ [y])"
  proof (cases "taken = []")
    case True
    then show ?thesis using y p2 p3 f by (simp add: NO_BLOCK_def nat_less_iff)
  next
    case False
    have a: "chain (storage p2) first taken"
      using ch y ny p2 by (simp add: chain_update_other chain_data_update)
    have b: "nxt (storage p2 ! nat y) = NO_BLOCK" using y p2 by (simp add: nat_less_iff)
    have "chain ((storage p2)[nat (last taken) := (storage p2 ! nat (last taken))\<lparr>nxt := y\<rparr>])
            first (taken @ [y])"
      using a False ny(2) y(1) _ b by (rule chain_snoc) (use y p2 in simp)
    then show ?thesis using False prev p3 f by simp
  qed
  show "length (storage p3) = length (storage p)" using p2 p3 by simp
  have neq: "nat y \<noteq> nat i \<and> (taken \<noteq> [] \<longrightarrow> nat prev \<noteq> nat i)"
    if "0 \<le> i" "i \<noteq> y" "taken \<noteq> [] \<longrightarrow> i \<noteq> prev" for i
  proof -
    have "nat y \<noteq> nat i" using that y by auto
    moreover have "nat prev \<noteq> nat i" if ne: "taken \<noteq> []"
    proof
      assume "nat prev = nat i"
      moreover have "0 \<le> prev" using prev[OF ne] by blast
      ultimately have "prev = i" using \<open>0 \<le> i\<close> by (simp only: eq_nat_nat_iff)
      then show False using \<open>taken \<noteq> [] \<longrightarrow> i \<noteq> prev\<close> ne by simp
    qed
    ultimately show ?thesis by blast
  qed
  show "\<forall>i. 0 \<le> i \<and> i \<notin> set (taken @ y # ys) \<longrightarrow> storage p3 ! nat i = storage p ! nat i"
  proof (intro allI impI)
    fix i assume i: "0 \<le> i \<and> i \<notin> set (taken @ y # ys)"
    then have "taken \<noteq> [] \<longrightarrow> i \<noteq> prev" using prev by auto
    then have "nat y \<noteq> nat i \<and> (taken \<noteq> [] \<longrightarrow> nat prev \<noteq> nat i)"
      using i by (intro neq) auto
    then show "storage p3 ! nat i = storage p ! nat i" using p2 p3 by simp
  qed
  show "\<forall>x \<in> set taken. info (storage p3 ! nat x) = info (storage p ! nat x)"
  proof
    fix x assume x: "x \<in> set taken"
    have "0 \<le> x" using chain_nonneg[OF ch x] by simp
    moreover have "y \<noteq> x" using x ny by auto
    ultimately have "nat y \<noteq> nat x" using y(1) by (simp only: eq_nat_nat_iff) simp
    then show "info (storage p3 ! nat x) = info (storage p ! nat x)"
      using p2 p3 by (simp add: info_nxt_update)
  qed
  have "nat y < length (storage p)" using y by simp
  moreover have "nat prev \<noteq> nat y" if ne: "taken \<noteq> []"
  proof -
    have "0 \<le> prev" "prev \<noteq> y" using prev[OF ne] by blast+
    then show ?thesis using y(1) by (simp only: eq_nat_nat_iff) simp
  qed
  ultimately show "info (storage p3 ! nat y) = take 31 (''file-data-'' @ print_d cnt)"
    using p2 p3 by (simp add: info_nxt_update)
qed

lemma allocate_file_blocks_loop_spec:
  assumes "chain (storage p) (free_start p) ys"
    and "chain (storage p) first taken"
    and "prev = (if taken = [] then NO_BLOCK else last taken)"
    and "distinct (taken @ ys)"
    and "num - cnt \<le> int (length ys)"
  shows "\<exists>p' r. allocate_file_blocks_loop p num cnt first prev = Some (Inr (p', r)) \<and>
           chain (storage p') r (taken @ take (nat (num - cnt)) ys) \<and>
           chain (storage p') (free_start p') (drop (nat (num - cnt)) ys) \<and>
           length (storage p') = length (storage p) \<and>
           (\<forall>i. 0 \<le> i \<and> i \<notin> set (taken @ ys) \<longrightarrow> storage p' ! nat i = storage p ! nat i) \<and>
           (\<forall>x \<in> set taken. info (storage p' ! nat x) = info (storage p ! nat x)) \<and>
           (\<forall>j. j < nat (num - cnt) \<longrightarrow>
              info (storage p' ! nat (ys ! j)) = take 31 (''file-data-'' @ print_d (cnt + int j)))"
  using assms
proof (induction ys arbitrary: p cnt first prev taken)
  case Nil
  then have "allocate_file_blocks_loop p num cnt first prev = Some (Inr (p, first))"
    by (subst allocate_file_blocks_loop.simps) simp
  then show ?case using Nil.prems by simp
next
  case (Cons y ys)
  show ?case
  proof (cases "cnt < num")
    case False
    then have "allocate_file_blocks_loop p num cnt first prev = Some (Inr (p, first))"
      by (subst allocate_file_blocks_loop.simps) simp
    then show ?thesis using False Cons.prems by simp
  next
    case True
    define p2 where "p2 = set_some_data (set_nxt (p\<lparr>free_start := get_nxt p y\<rparr>) y NO_BLOCK) y
                    (take 31 (''file-data-'' @ print_d cnt))"
    define p3 where "p3 = (if taken = [] then p2 else set_nxt p2 prev y)"
    define f where "f = (if taken = [] then y else first)"
    note st = allocate_file_blocks_step[OF Cons.prems(1-4) True p2_def p3_def f_def]
    have 3: "y = (if taken @ [y] = [] then NO_BLOCK else last (taken @ [y]))" by simp
    have 4: "distinct ((taken @ [y]) @ ys)" using Cons.prems(4) by auto
    have 5: "num - (cnt + 1) \<le> int (length ys)" using Cons.prems(5) by simp
    from Cons.IH[OF st(2) st(3) 3 4 5] obtain p' r where
      res: "allocate_file_blocks_loop p3 num (cnt + 1) f y = Some (Inr (p', r))"
      and c1: "chain (storage p') r ((taken @ [y]) @ take (nat (num - (cnt + 1))) ys)"
      and c2: "chain (storage p') (free_start p') (drop (nat (num - (cnt + 1))) ys)"
      and ln: "length (storage p') = length (storage p3)"
      and fr: "\<forall>i. 0 \<le> i \<and> i \<notin> set ((taken @ [y]) @ ys) \<longrightarrow>
                 storage p' ! nat i = storage p3 ! nat i"
      and keep: "\<forall>x \<in> set (taken @ [y]). info (storage p' ! nat x) = info (storage p3 ! nat x)"
      and lab: "\<forall>j. j < nat (num - (cnt + 1)) \<longrightarrow>
              info (storage p' ! nat (ys ! j))
                = take 31 (''file-data-'' @ print_d (cnt + 1 + int j))"
      by blast
    have n: "nat (num - cnt) = Suc (nat (num - (cnt + 1)))" using True by simp
    have a: "\<forall>i. 0 \<le> i \<and> i \<notin> set (taken @ y # ys) \<longrightarrow> storage p' ! nat i = storage p ! nat i"
      using fr st(5) by simp
    have b: "\<forall>x \<in> set taken. info (storage p' ! nat x) = info (storage p ! nat x)"
      using keep st(6) by simp
    have c: "info (storage p' ! nat ((y # ys) ! j))
               = take 31 (''file-data-'' @ print_d (cnt + int j))"
      if "j < nat (num - cnt)" for j
    proof (cases j)
      case 0
      then show ?thesis using keep st(7) by simp
    next
      case (Suc k)
      then have "k < nat (num - (cnt + 1))" using that n by simp
      then have "info (storage p' ! nat (ys ! k))
                = take 31 (''file-data-'' @ print_d (cnt + 1 + int k))" using lab by blast
      moreover have "cnt + 1 + int k = cnt + int j" using Suc by simp
      ultimately show ?thesis using Suc by simp
    qed
    have "chain (storage p') r (taken @ take (nat (num - cnt)) (y # ys))"
      "chain (storage p') (free_start p') (drop (nat (num - cnt)) (y # ys))"
      using c1 c2 by (simp_all add: n)
    moreover have "length (storage p') = length (storage p)" using ln st(4) by simp
    moreover have "allocate_file_blocks_loop p num cnt first prev = Some (Inr (p', r))"
      using st(1) res by simp
    ultimately show ?thesis using a b c by blast
  qed
qed

lemma allocate_file_blocks_takes_prefix:
  assumes "chain (storage p) (free_start p) xs" and "1 \<le> need" and "need \<le> int (length xs)"
  shows "\<exists>p'. allocate_file_blocks p need = Some (Inr (p', free_start p)) \<and>
           chain (storage p') (free_start p) (take (nat need) xs) \<and>
           chain (storage p') (free_start p') (drop (nat need) xs) \<and>
           length (storage p') = length (storage p) \<and>
           (\<forall>i. 0 \<le> i \<and> i \<notin> set xs \<longrightarrow> storage p' ! nat i = storage p ! nat i) \<and>
           (\<forall>j. j < nat need \<longrightarrow>
              info (storage p' ! nat (xs ! j)) = take 31 (''file-data-'' @ print_d (int j)))"
proof -
  have d: "distinct ([] @ xs)" using chain_distinct[OF assms(1)] by simp
  have c: "chain (storage p) NO_BLOCK []" by simp
  have e: "NO_BLOCK = (if ([]::int list) = [] then NO_BLOCK else last [])" by simp
  have l: "need - 0 \<le> int (length xs)" using assms(3) by simp
  from allocate_file_blocks_loop_spec[OF assms(1) c e d l]
  obtain p' r where res: "allocate_file_blocks_loop p need 0 NO_BLOCK NO_BLOCK = Some (Inr (p', r))"
    "chain (storage p') r (take (nat need) xs)"
    "chain (storage p') (free_start p') (drop (nat need) xs)"
    "length (storage p') = length (storage p)"
    "\<forall>i. 0 \<le> i \<and> i \<notin> set xs \<longrightarrow> storage p' ! nat i = storage p ! nat i"
    "\<forall>j. j < nat need \<longrightarrow>
              info (storage p' ! nat (xs ! j)) = take 31 (''file-data-'' @ print_d (int j))"
    by auto
  have ne: "xs \<noteq> []" "take (nat need) xs \<noteq> []" using assms(2,3) by auto
  have "r = hd (take (nat need) xs)" using chain_head[OF res(2)] ne by simp
  also have "\<dots> = hd xs" using assms(2) by (cases xs) (auto simp: take_Cons')
  also have "\<dots> = free_start p" using chain_head[OF assms(1)] ne by simp
  finally have r: "r = free_start p" .
  have "allocate_file_blocks p need = Some (Inr (p', free_start p))"
    using res(1) assms(2) r by (simp add: allocate_file_blocks_def)
  moreover have "chain (storage p') (free_start p) (take (nat need) xs)"
    using res(2) r by simp
  ultimately show ?thesis using res(3-6) by blast
qed

text \<open>The labels of the first blocks, and the second copy at work on the pool just reset.\<close>

lemma labels_eval:
  "take 31 (''file-data-'' @ print_d 0) = ''file-data-0'' \<and>
   take 31 (''file-data-'' @ print_d 1) = ''file-data-1'' \<and>
   take 31 (''file-data-'' @ print_d 2) = ''file-data-2''"
  by code_simp

lemma allocate_file_blocks_example:
  "(case allocate_file_blocks fresh_pool 3 of
      Some (Inr (p, h)) \<Rightarrow>
        h = 0 \<and> free_start p = 3 \<and>
        take 4 (storage p) =
          [\<lparr>info = ''file-data-0'', nxt = 1\<rparr>, \<lparr>info = ''file-data-1'', nxt = 2\<rparr>,
           \<lparr>info = ''file-data-2'', nxt = NO_BLOCK\<rparr>, \<lparr>info = [], nxt = 4\<rparr>]
    | _ \<Rightarrow> False)"
  by code_simp

section \<open>Allocations only: both allocators count the same free blocks\<close>

lemma allocate_prefix:
  assumes len: "length m = 8" and k: "0 \<le> k" "k \<le> 64"
    and pre: "\<forall>i. 0 \<le> i \<and> i < 64 \<longrightarrow> bitof m i = (i < k)"
  shows "\<exists>m'. allocate_contiguous m need
                = Inr (m', if 1 \<le> need \<and> need \<le> 64 - k then k else - 1) \<and>
              length m' = 8 \<and>
              (\<forall>i. 0 \<le> i \<and> i < 64 \<longrightarrow>
                 bitof m' i = (i < (if 1 \<le> need \<and> need \<le> 64 - k then k + need else k)))"
proof (cases "1 \<le> need \<and> need \<le> 64")
  case False
  then have "allocate_contiguous m need = Inr (m, - 1)"
    by (auto simp: allocate_contiguous_def BLOCK_COUNT_def)
  then show ?thesis using False k len pre by auto
next
  case True
  then have n: "1 \<le> need" "need \<le> 64" by simp_all
  have run: "runb m s need = (k \<le> s \<and> s + need \<le> 64)" for s
  proof
    assume r: "runb m s need"
    then have s: "0 \<le> s" "s + need \<le> 64" and "\<not> bitof m s"
      using n by (auto simp: runb_def)
    then have "\<not> s < k" using pre n by auto
    then show "k \<le> s \<and> s + need \<le> 64" using s by simp
  next
    assume "k \<le> s \<and> s + need \<le> 64"
    then show "runb m s need" using pre k by (auto simp: runb_def)
  qed
  from allocate_spec[OF len n] obtain m' r where
    res: "allocate_contiguous m need = Inr (m', r)" "length m' = 8"
    and alt: "(runb m r need \<and> (\<forall>s. runb m s need \<longrightarrow> r \<le> s) \<and>
             (\<forall>k. 0 \<le> k \<longrightarrow> bitof m' k = (bitof m k \<or> (r \<le> k \<and> k < r + need))))
            \<or> (r = - 1 \<and> m' = m \<and> (\<forall>s. \<not> runb m s need))"
    by blast
  show ?thesis
  proof (cases "need \<le> 64 - k")
    case fits: True
    then have rk: "runb m k need" by (simp add: run)
    with alt have a: "runb m r need" "\<forall>s. runb m s need \<longrightarrow> r \<le> s"
      "\<forall>i. 0 \<le> i \<longrightarrow> bitof m' i = (bitof m i \<or> (r \<le> i \<and> i < r + need))"
      by auto
    have "r = k" using a(1,2) rk run by force
    moreover have "bitof m' i = (i < k + need)" if "0 \<le> i" "i < 64" for i
      using a(3) pre that \<open>r = k\<close> n by auto
    ultimately show ?thesis using res n fits by auto
  next
    case False
    then have "\<not> runb m s need" for s by (simp add: run)
    with alt have "r = - 1" "m' = m" by auto
    then show ?thesis using res False pre by auto
  qed
qed

lemma get_blocks_count:
  assumes "chain (storage p) (free_start p) xs"
  shows "\<exists>p' r xs'. get_blocks p num = Some (Inr (p', r)) \<and>
           (r \<noteq> NO_BLOCK) = (1 \<le> num \<and> num \<le> int (length xs)) \<and>
           chain (storage p') (free_start p') xs' \<and>
           int (length xs') =
             (if 1 \<le> num \<and> num \<le> int (length xs) then int (length xs) - num
              else int (length xs))"
proof -
  from get_blocks_spec[OF assms, of num] obtain p' r where
    res: "get_blocks p num = Some (Inr (p', r))"
    and post: "if num \<le> 0 then p' = p \<and> r = NO_BLOCK
            else if num \<le> int (length xs)
            then chain (storage p') r (take (nat num) xs) \<and>
                 chain (storage p') (free_start p') (drop (nat num) xs)
            else r = NO_BLOCK \<and> chain (storage p') (free_start p') (rev xs)"
    by blast
  show ?thesis
  proof (cases "1 \<le> num \<and> num \<le> int (length xs)")
    case True
    then have c: "chain (storage p') r (take (nat num) xs)"
      "chain (storage p') (free_start p') (drop (nat num) xs)" using post by auto
    have "take (nat num) xs \<noteq> []" using True by auto
    then have "r \<noteq> NO_BLOCK" using c(1) by (cases "take (nat num) xs") (auto simp: NO_BLOCK_def)
    moreover have "int (length (drop (nat num) xs)) = int (length xs) - num"
      using True by (simp add: of_nat_diff nat_le_iff)
    ultimately have "get_blocks p num = Some (Inr (p', r)) \<and>
           (r \<noteq> NO_BLOCK) = (1 \<le> num \<and> num \<le> int (length xs)) \<and>
           chain (storage p') (free_start p') (drop (nat num) xs) \<and>
           int (length (drop (nat num) xs)) =
             (if 1 \<le> num \<and> num \<le> int (length xs) then int (length xs) - num
              else int (length xs))"
      using res c(2) True by simp
    then show ?thesis by blast
  next
    case False
    then have "r = NO_BLOCK \<and> (chain (storage p') (free_start p') xs \<or>
        chain (storage p') (free_start p') (rev xs))"
      using post assms by (auto split: if_splits)
    then obtain ys where "chain (storage p') (free_start p') ys" "length ys = length xs"
      "r = NO_BLOCK" by (auto simp: length_rev)
    then have "get_blocks p num = Some (Inr (p', r)) \<and>
           (r \<noteq> NO_BLOCK) = (1 \<le> num \<and> num \<le> int (length xs)) \<and>
           chain (storage p') (free_start p') ys \<and>
           int (length ys) =
             (if 1 \<le> num \<and> num \<le> int (length xs) then int (length xs) - num
              else int (length xs))"
      using res False by simp
    then show ?thesis by blast
  qed
qed

lemma allocations_agree:
  assumes "length m = 8" and "0 \<le> k" "k \<le> 64"
    and "\<forall>i. 0 \<le> i \<and> i < 64 \<longrightarrow> bitof m i = (i < k)"
    and "chain (storage p) (free_start p) xs" and "int (length xs) = 64 - k"
  shows "\<exists>out. run_bitmap m al (map Allocate needs) = Inr out \<and>
               run_list p al' (map Allocate needs) = Some (Inr out)"
  using assms
proof (induction needs arbitrary: m k p xs al al')
  case Nil
  then show ?case by simp
next
  case (Cons need needs)
  let ?ok = "1 \<le> need \<and> need \<le> 64 - k"
  let ?k' = "if ?ok then k + need else k"
  from allocate_prefix[OF Cons.prems(1-4), of need] obtain m' where
    m': "allocate_contiguous m need = Inr (m', if ?ok then k else - 1)" "length m' = 8"
    "\<forall>i. 0 \<le> i \<and> i < 64 \<longrightarrow> bitof m' i = (i < ?k')"
    by blast
  from get_blocks_count[OF Cons.prems(5), of need] obtain p' r xs' where
    p': "get_blocks p need = Some (Inr (p', r))"
    and r: "(r \<noteq> NO_BLOCK) = (1 \<le> need \<and> need \<le> int (length xs))"
    and c: "chain (storage p') (free_start p') xs'"
    and l: "int (length xs') =
             (if 1 \<le> need \<and> need \<le> int (length xs) then int (length xs) - need
              else int (length xs))"
    by blast
  have r': "(r \<noteq> NO_BLOCK) = ?ok" using r Cons.prems(6) by simp
  have l': "int (length xs') = 64 - ?k'" using l Cons.prems(6) by auto
  have k': "0 \<le> ?k'" "?k' \<le> 64" using Cons.prems(2,3) by auto
  from Cons.IH[OF m'(2) k' m'(3) c l'] obtain out where
    out: "run_bitmap m' (al @ [(if ?ok then k else - 1, need)]) (map Allocate needs) = Inr out"
      "run_list p' (al' @ [r]) (map Allocate needs) = Some (Inr out)"
    by blast
  have "((if ?ok then k else - 1) \<noteq> - 1) = ?ok" using Cons.prems(2) by auto
  then show ?case using m'(1) p' r' out by simp
qed

section \<open>The claims\<close>

text \<open>
  Claim C1 (first fit). For a map of \<open>MAP_SIZE\<close> bytes and \<open>1 \<le> need \<le> BLOCK_COUNT\<close>: if
  the \<open>need\<close> blocks from some \<open>start\<close> on are all free, then \<open>allocate_contiguous\<close> returns
  the lowest index \<open>r\<close> of such a run, and afterwards exactly the blocks \<open>r, \<dots>, r + need - 1\<close>
  have become used, every other block keeping the status it had.
\<close>

theorem allocate_contiguous_first_fit:
  assumes "length m = nat MAP_SIZE" and "1 \<le> need" and "need \<le> BLOCK_COUNT"
    and "run_free m start need"
  shows "\<exists>m' r. allocate_contiguous m need = Inr (m', r) \<and>
           run_free m r need \<and> (\<forall>s. run_free m s need \<longrightarrow> r \<le> s) \<and>
           (\<forall>k \<in> {0 ..< BLOCK_COUNT}.
              check_block_status m' k =
                (if r \<le> k \<and> k < r + need then Inr 1 else check_block_status m k))"
proof -
  have len: "length m = 8" using assms(1) by (simp add: map_size_8)
  have ex: "runb m start need" using assms(4) len by (simp add: run_free_runb)
  obtain m' r where res: "allocate_contiguous m need = Inr (m', r)" "length m' = 8"
    and low: "runb m r need" "\<forall>s. runb m s need \<longrightarrow> r \<le> s"
    and bits: "\<forall>k. 0 \<le> k \<longrightarrow> bitof m' k = (bitof m k \<or> (r \<le> k \<and> k < r + need))"
    using allocate_spec[OF len assms(2)] assms(3) ex by (auto simp: BLOCK_COUNT_def)
  have "check_block_status m' k =
          (if r \<le> k \<and> k < r + need then Inr 1 else check_block_status m k)"
    if "k \<in> {0 ..< BLOCK_COUNT}" for k
  proof -
    have k: "0 \<le> k" "k < 64" using that by (auto simp: BLOCK_COUNT_def)
    show ?thesis
      using bits k by (simp add: check_block_status_bitof[OF len k] check_block_status_bitof[OF res(2) k])
  qed
  then show ?thesis using res low len by (auto simp: run_free_runb)
qed

theorem allocate_contiguous_first_fit_witness:
  "\<exists>m' r. allocate_contiguous [0, 240, 1, 0, 0, 0, 0, 0] 20 = Inr (m', r) \<and>
           run_free [0, 240, 1, 0, 0, 0, 0, 0] r 20 \<and>
           (\<forall>s. run_free [0, 240, 1, 0, 0, 0, 0, 0] s 20 \<longrightarrow> r \<le> s) \<and>
           (\<forall>k \<in> {0 ..< BLOCK_COUNT}.
              check_block_status m' k =
                (if r \<le> k \<and> k < r + 20 then Inr 1
                 else check_block_status [0, 240, 1, 0, 0, 0, 0, 0] k))"
proof (rule allocate_contiguous_first_fit)
  show "length [0, 240, 1, 0, 0, 0, 0, 0 :: 8 word] = nat MAP_SIZE" by (simp add: map_size_8)
  show "(1::int) \<le> 20" by simp
  show "(20::int) \<le> BLOCK_COUNT" by (simp add: BLOCK_COUNT_def)
  show "run_free [0, 240, 1, 0, 0, 0, 0, 0] 17 20" by code_simp
qed

text \<open>
  Claim C2 (freeing a chain), at a failing input. On the pool just reset, \<open>get_blocks 2\<close>
  returns the chain \<open>0, 1\<close>. \<open>release_blocks\<close> on its head sets \<open>free_start\<close> to 0, as the
  claim says, but the free list it leaves is \<open>0, 2, 3, \<dots>, 63\<close>: block 1, the tail of the
  chain, is not on it. The walk keeps \<open>last\<close> one step behind \<open>cur\<close>, so the link to the old
  free list is written into the node before the tail (lemma \<open>release_blocks_spec\<close> states
  this for every chain, and \<open>free_up_file_blocks\<close> of the second copy is the same function).
\<close>

theorem release_blocks_loses_tail:
  "(case get_blocks fresh_pool 2 of
      Some (Inr (pa, h)) \<Rightarrow>
        h = 0 \<and> chain (storage pa) h [0, 1] \<and> chain (storage pa) (free_start pa) [2 .. 63] \<and>
        (case release_blocks pa h of
           Some (Inr pb) \<Rightarrow>
             free_start pb = 0 \<and> chain (storage pb) (free_start pb) (0 # [2 .. 63]) \<and>
             \<not> chain (storage pb) (free_start pb) ([0, 1] @ [2 .. 63]) \<and>
             1 \<notin> set (0 # [2 .. 63 :: int])
         | _ \<Rightarrow> False)
    | _ \<Rightarrow> False)"
  by code_simp

text \<open>
  Claim C3 (all or nothing). Bitmap: when \<open>allocate_contiguous\<close> returns \<open>-1\<close> the map it
  leaves is the map it was given. Linked list: when \<open>get_blocks\<close>, asked for at least one
  block, returns \<open>NO_BLOCK\<close>, the same blocks are free before and after: the rollback has
  put every block it took back, and the free list is the old one in reverse order.
\<close>

theorem allocation_all_or_nothing:
  "(length m = nat MAP_SIZE \<and> allocate_contiguous m need = Inr (m', - 1) \<longrightarrow> m' = m) \<and>
   (chain (storage p) (free_start p) xs \<and> 1 \<le> num \<and>
    get_blocks p num = Some (Inr (p', NO_BLOCK)) \<longrightarrow>
      free_set p' = free_set p \<and> chain (storage p') (free_start p') (rev xs) \<and> frame p p' xs)"
proof (intro conjI impI)
  assume "length m = nat MAP_SIZE \<and> allocate_contiguous m need = Inr (m', - 1)"
  then show "m' = m" by (auto simp: map_size_8 intro: allocate_fail_unchanged)
next
  assume h: "chain (storage p) (free_start p) xs \<and> 1 \<le> num \<and>
    get_blocks p num = Some (Inr (p', NO_BLOCK))"
  then have r: "chain (storage p') (free_start p') (rev xs)" "frame p p' xs"
    using get_blocks_fail[of p xs num p'] by auto
  then show "chain (storage p') (free_start p') (rev xs)" "frame p p' xs" by simp_all
  show "free_set p' = free_set p"
    using free_set_chain[OF r(1)] free_set_chain[of p xs] h by simp
qed

theorem allocation_all_or_nothing_witness:
  "(length (replicate 8 (255 :: 8 word)) = nat MAP_SIZE \<and>
    allocate_contiguous (replicate 8 255) 1 = Inr (replicate 8 255, - 1)) \<and>
   (chain (storage fresh_pool) (free_start fresh_pool) [0 .. 63] \<and> (1::int) \<le> 65 \<and>
    get_blocks fresh_pool 65 =
      Some (Inr (\<lparr>storage = map (\<lambda>i. \<lparr>info = [], nxt = i - 1\<rparr>) [0 .. 63], free_start = 63\<rparr>,
                 NO_BLOCK))) \<and>
   free_set \<lparr>storage = map (\<lambda>i. \<lparr>info = [], nxt = i - 1\<rparr>) [0 .. 63], free_start = 63\<rparr>
     = free_set fresh_pool \<and>
   chain (map (\<lambda>i. \<lparr>info = [], nxt = i - 1\<rparr>) [0 .. 63]) 63 (rev [0 .. 63])"
proof -
  have a: "length (replicate 8 (255 :: 8 word)) = nat MAP_SIZE \<and>
    allocate_contiguous (replicate 8 255) 1 = Inr (replicate 8 255, - 1)"
    by code_simp
  have b: "chain (storage fresh_pool) (free_start fresh_pool) [0 .. 63] \<and> (1::int) \<le> 65 \<and>
    get_blocks fresh_pool 65 =
      Some (Inr (\<lparr>storage = map (\<lambda>i. \<lparr>info = [], nxt = i - 1\<rparr>) [0 .. 63], free_start = 63\<rparr>,
                 NO_BLOCK))"
    by code_simp
  show ?thesis
    using a b
      allocation_all_or_nothing[of "replicate 8 255" 1 "replicate 8 255" fresh_pool "[0 .. 63]" 65
        "\<lparr>storage = map (\<lambda>i. \<lparr>info = [], nxt = i - 1\<rparr>) [0 .. 63], free_start = 63\<rparr>"]
    by simp
qed

text \<open>
  Claim C4 (round trip), at a failing input. For the bitmap the round trip holds (lemma
  \<open>bitmap_round_trip\<close>), and for the linked list it holds for one block (lemma
  \<open>list_round_trip_one\<close>). On the pool just reset, \<open>get_blocks 2\<close> followed by
  \<open>release_blocks\<close> on the returned handle leaves a pool that is not the one before the
  allocation: block 0 points to 2 and block 1 to \<open>NO_BLOCK\<close>.
\<close>

theorem list_round_trip_fails:
  "(case get_blocks fresh_pool 2 of
      Some (Inr (pa, h)) \<Rightarrow>
        h \<noteq> NO_BLOCK \<and>
        (case release_blocks pa h of
           Some (Inr pb) \<Rightarrow>
             pb \<noteq> fresh_pool \<and>
             get_nxt fresh_pool 0 = 1 \<and> get_nxt pb 0 = 2 \<and>
             get_nxt fresh_pool 1 = 2 \<and> get_nxt pb 1 = NO_BLOCK
         | _ \<Rightarrow> False)
    | _ \<Rightarrow> False)"
  by code_simp

text \<open>
  Claim C5 (the scenario of the specification, as stated). From the empty map,
  \<open>allocate_contiguous 12\<close> returns 0 and \<open>allocate_contiguous 5\<close> returns 12; after
  \<open>free_contiguous 0 12\<close> the call \<open>allocate_contiguous 20\<close> does not return 0.
\<close>

theorem bitmap_scenario_counterexample:
  "allocate_contiguous map_init 12 = Inr ([255, 15, 0, 0, 0, 0, 0, 0], 0) \<and>
   allocate_contiguous [255, 15, 0, 0, 0, 0, 0, 0] 5 = Inr ([255, 255, 1, 0, 0, 0, 0, 0], 12) \<and>
   free_contiguous [255, 255, 1, 0, 0, 0, 0, 0] 0 12 = Inr [0, 240, 1, 0, 0, 0, 0, 0] \<and>
   map_sum id snd (allocate_contiguous [0, 240, 1, 0, 0, 0, 0, 0] 20) \<noteq> Inr 0"
  by code_simp

text \<open>
  Claim C5, amended. The last call returns 17: blocks 12 to 16 are still used, so the freed
  blocks 0 to 11 are a run of 12 only, and the first run of 20 free blocks starts at 17.
\<close>

theorem bitmap_scenario:
  "allocate_contiguous map_init 12 = Inr ([255, 15, 0, 0, 0, 0, 0, 0], 0) \<and>
   allocate_contiguous [255, 15, 0, 0, 0, 0, 0, 0] 5 = Inr ([255, 255, 1, 0, 0, 0, 0, 0], 12) \<and>
   free_contiguous [255, 255, 1, 0, 0, 0, 0, 0] 0 12 = Inr [0, 240, 1, 0, 0, 0, 0, 0] \<and>
   allocate_contiguous [0, 240, 1, 0, 0, 0, 0, 0] 20 = Inr ([0, 240, 255, 255, 31, 0, 0, 0], 17) \<and>
   map (check_block_status [0, 240, 1, 0, 0, 0, 0, 0]) [10 .. 18] =
     [Inr 0, Inr 0, Inr 1, Inr 1, Inr 1, Inr 1, Inr 1, Inr 0, Inr 0]"
  by code_simp

text \<open>
  Claim C6 (exhaustion). After a reset, whatever the pool held before, a request for all
  64 blocks succeeds with handle 0 and the next request for one block fails, in the bitmap
  and in the linked list alike.
\<close>

theorem exhaustion_boundary:
  assumes "length (storage p) = nat MAX_BLOCKS"
  shows "\<exists>m1 m2 p0 p1 p2.
           allocate_contiguous map_init BLOCK_COUNT = Inr (m1, 0) \<and>
           allocate_contiguous m1 1 = Inr (m2, - 1) \<and>
           setup_pool p = Inr p0 \<and>
           get_blocks p0 MAX_BLOCKS = Some (Inr (p1, 0)) \<and>
           get_blocks p1 1 = Some (Inr (p2, NO_BLOCK))"
proof -
  have len: "length (storage p) = 64" using assms by (simp add: MAX_BLOCKS_def)
  from setup_pool_spec[OF len] obtain p0 where p0: "setup_pool p = Inr p0" "free_start p0 = 0"
    "chain (storage p0) (free_start p0) [0 .. 63]" by auto
  from get_blocks_spec[OF p0(3), of 64] obtain p1 r where p1:
    "get_blocks p0 64 = Some (Inr (p1, r))"
    "chain (storage p1) r (take (nat 64) [0 .. 63])"
    "chain (storage p1) (free_start p1) (drop (nat 64) [0 .. 63])"
    by auto
  have tk: "take (nat 64) [0 .. 63 :: int] = [0 .. 63]" by simp
  have "r = hd [0 .. 63 :: int]" using chain_head[OF p1(2)] by (simp only: tk) simp
  then have r: "r = 0" by (simp add: upto_rec1)
  have e: "chain (storage p1) (free_start p1) []" using p1(3) by simp
  from get_blocks_spec[OF e, of 1] obtain p2 where
    p2: "get_blocks p1 1 = Some (Inr (p2, NO_BLOCK))" by auto
  show ?thesis using full_map_alloc p0(1) p1(1) r p2 by (auto simp: MAX_BLOCKS_def)
qed

theorem exhaustion_boundary_witness:
  "\<exists>m1 m2 p0 p1 p2.
           allocate_contiguous map_init BLOCK_COUNT = Inr (m1, 0) \<and>
           allocate_contiguous m1 1 = Inr (m2, - 1) \<and>
           setup_pool initial_pool = Inr p0 \<and>
           get_blocks p0 MAX_BLOCKS = Some (Inr (p1, 0)) \<and>
           get_blocks p1 1 = Some (Inr (p2, NO_BLOCK))"
proof (rule exhaustion_boundary)
  show "length (storage initial_pool) = nat MAX_BLOCKS" by (simp add: initial_pool_def)
qed

text \<open>
  Claim C7 (invalid requests). \<open>allocate_contiguous\<close> returns \<open>-1\<close> and the unchanged map
  for \<open>need \<le> 0\<close> and for \<open>need > BLOCK_COUNT\<close>. \<open>get_blocks\<close> returns \<open>NO_BLOCK\<close> and the
  unchanged pool for \<open>num \<le> 0\<close>, and has no check against the capacity: on a pool just
  reset, a request for more than \<open>MAX_BLOCKS\<close> blocks runs the loop, takes all 64 blocks and
  rolls them back, which shows in the free list, now reversed with block 63 at its head.
\<close>

theorem invalid_request:
  "(need \<le> 0 \<or> need > BLOCK_COUNT \<longrightarrow> allocate_contiguous m need = Inr (m, - 1)) \<and>
   (num \<le> 0 \<longrightarrow> get_blocks p num = Some (Inr (p, NO_BLOCK))) \<and>
   (length (storage q) = nat MAX_BLOCKS \<and> MAX_BLOCKS < k \<longrightarrow>
      (\<exists>q0 q1. setup_pool q = Inr q0 \<and> get_blocks q0 k = Some (Inr (q1, NO_BLOCK)) \<and>
         free_start q0 = 0 \<and> free_start q1 = MAX_BLOCKS - 1 \<and>
         chain (storage q1) (free_start q1) (rev [0 .. MAX_BLOCKS - 1])))"
proof (intro conjI impI)
  assume "need \<le> 0 \<or> need > BLOCK_COUNT"
  then show "allocate_contiguous m need = Inr (m, - 1)" by (simp add: allocate_contiguous_def)
next
  assume "num \<le> 0"
  then show "get_blocks p num = Some (Inr (p, NO_BLOCK))" by (simp add: get_blocks_def)
next
  assume h: "length (storage q) = nat MAX_BLOCKS \<and> MAX_BLOCKS < k"
  then have len: "length (storage q) = 64" and k: "64 < k" by (simp_all add: MAX_BLOCKS_def)
  from setup_pool_spec[OF len] obtain q0 where q0: "setup_pool q = Inr q0" "free_start q0 = 0"
    "chain (storage q0) (free_start q0) [0 .. 63]" by auto
  from get_blocks_spec[OF q0(3), of k] k obtain q1 where q1:
    "get_blocks q0 k = Some (Inr (q1, NO_BLOCK))"
    "chain (storage q1) (free_start q1) (rev [0 .. 63])" by auto
  have "rev [0 .. 63 :: int] = 63 # rev [0 .. 62]" by (simp add: upto_rec2)
  then have "free_start q1 = 63" using chain_head[OF q1(2)] by simp
  then show "\<exists>q0 q1. setup_pool q = Inr q0 \<and> get_blocks q0 k = Some (Inr (q1, NO_BLOCK)) \<and>
         free_start q0 = 0 \<and> free_start q1 = MAX_BLOCKS - 1 \<and>
         chain (storage q1) (free_start q1) (rev [0 .. MAX_BLOCKS - 1])"
    using q0 q1 by (auto simp: MAX_BLOCKS_def)
qed

theorem invalid_request_witness:
  "((65::int) \<le> 0 \<or> 65 > BLOCK_COUNT) \<and> allocate_contiguous map_init 65 = Inr (map_init, - 1) \<and>
   (0::int) \<le> 0 \<and> get_blocks fresh_pool 0 = Some (Inr (fresh_pool, NO_BLOCK)) \<and>
   length (storage initial_pool) = nat MAX_BLOCKS \<and> MAX_BLOCKS < 65 \<and>
   (\<exists>q0 q1. setup_pool initial_pool = Inr q0 \<and> get_blocks q0 65 = Some (Inr (q1, NO_BLOCK)) \<and>
         free_start q0 = 0 \<and> free_start q1 = MAX_BLOCKS - 1 \<and>
         chain (storage q1) (free_start q1) (rev [0 .. MAX_BLOCKS - 1]))"
proof -
  have a: "(65::int) \<le> 0 \<or> 65 > BLOCK_COUNT" by (simp add: BLOCK_COUNT_def)
  have b: "length (storage initial_pool) = nat MAX_BLOCKS \<and> MAX_BLOCKS < 65"
    by (simp add: initial_pool_def MAX_BLOCKS_def)
  show ?thesis
    using a b invalid_request[of 65 map_init 0 fresh_pool initial_pool 65] by simp
qed

text \<open>
  Claim C8 (same results from both representations), as stated. From the reset pools, the
  requests allocate 1, allocate 62, free the first allocation, allocate 2 end differently:
  the bitmap has blocks 0 and 63 free, which are not contiguous, and fails; the linked list
  hands out any two free blocks and succeeds.
\<close>

theorem representations_differ:
  "setup_pool initial_pool = Inr fresh_pool \<and>
   run_bitmap map_init [] [Allocate 1, Allocate 62, Release 0, Allocate 2]
     = Inr [True, True, False] \<and>
   run_list fresh_pool [] [Allocate 1, Allocate 62, Release 0, Allocate 2]
     = Some (Inr [True, True, True])"
  by code_simp

text \<open>
  Claim C8, amended. For every sequence of allocation requests with no free among them,
  applied after a reset, the two representations give the same list of successes and
  failures: each request succeeds exactly when it asks for at least one block and for no
  more than are free.
\<close>

theorem allocation_only_equivalence:
  assumes "length (storage p) = nat MAX_BLOCKS"
  shows "\<exists>p0 out. setup_pool p = Inr p0 \<and>
           run_bitmap map_init [] (map Allocate needs) = Inr out \<and>
           run_list p0 [] (map Allocate needs) = Some (Inr out)"
proof -
  have len: "length (storage p) = 64" using assms by (simp add: MAX_BLOCKS_def)
  from setup_pool_spec[OF len] obtain p0 where p0: "setup_pool p = Inr p0"
    "chain (storage p0) (free_start p0) [0 .. 63]" by auto
  have m: "length map_init = 8" by (simp add: map_init_def map_size_8)
  have z: "\<forall>i. 0 \<le> i \<and> i < 64 \<longrightarrow> bitof map_init i = (i < 0)"
    by (auto simp: bitof_def map_init_def map_size_8 nat_less_iff)
  have l: "int (length [0 .. 63 :: int]) = 64 - 0" by simp
  from allocations_agree[OF m _ _ z p0(2) l, of "[]" needs "[]"] p0(1)
  show ?thesis by auto
qed

theorem allocation_only_equivalence_witness:
  "\<exists>p0 out. setup_pool initial_pool = Inr p0 \<and>
           run_bitmap map_init [] (map Allocate [2, 3, 5, 2, 4, 6, 1, 3, 5, 2, 4, 3, 2, 1, 5])
             = Inr out \<and>
           run_list p0 [] (map Allocate [2, 3, 5, 2, 4, 6, 1, 3, 5, 2, 4, 3, 2, 1, 5])
             = Some (Inr out)"
proof (rule allocation_only_equivalence)
  show "length (storage initial_pool) = nat MAX_BLOCKS" by (simp add: initial_pool_def)
qed

text \<open>
  Claim C9 (freeing twice). For an extent \<open>start, \<dots>, start + cnt - 1\<close> inside the pool,
  \<open>free_contiguous\<close> applied a second time returns the map the first application returned,
  the blocks of the extent are free afterwards, and when they were free already the map
  does not change at all.
\<close>

theorem free_contiguous_idempotent:
  assumes "length m = nat MAP_SIZE" and "0 \<le> start" and "0 \<le> cnt"
    and "start + cnt \<le> BLOCK_COUNT"
  shows "\<exists>m1. free_contiguous m start cnt = Inr m1 \<and>
           free_contiguous m1 start cnt = Inr m1 \<and>
           (\<forall>j \<in> {start ..< start + cnt}. check_block_status m1 j = Inr 0) \<and>
           ((\<forall>j \<in> {start ..< start + cnt}. check_block_status m j = Inr 0) \<longrightarrow> m1 = m)"
proof -
  have len: "length m = 8" using assms(1) by (simp add: map_size_8)
  have hi: "start + cnt \<le> 64" using assms(4) by (simp add: BLOCK_COUNT_def)
  obtain m1 where m1: "free_contiguous m start cnt = Inr m1" "length m1 = 8"
    "\<forall>k. 0 \<le> k \<longrightarrow> bitof m1 k = (bitof m k \<and> \<not> (start \<le> k \<and> k < start + cnt))"
    using free_spec[OF len assms(2) hi] by blast
  obtain m2 where m2: "free_contiguous m1 start cnt = Inr m2" "length m2 = 8"
    "\<forall>k. 0 \<le> k \<longrightarrow> bitof m2 k = (bitof m1 k \<and> \<not> (start \<le> k \<and> k < start + cnt))"
    using free_spec[OF m1(2) assms(2) hi] by blast
  have "m2 = m1"
    by (rule bitmap_ext[OF m2(2) m1(2)]) (use m1(3) m2(3) in auto)
  moreover have "check_block_status m1 j = Inr 0" if "j \<in> {start ..< start + cnt}" for j
  proof -
    have j: "0 \<le> j" "j < 64" using that assms(2) hi by auto
    show ?thesis using m1(3) j that by (simp add: check_block_status_bitof[OF m1(2) j])
  qed
  moreover have "m1 = m" if fr: "\<forall>j \<in> {start ..< start + cnt}. check_block_status m j = Inr 0"
  proof (rule bitmap_ext[OF m1(2) len])
    fix k :: int assume k: "0 \<le> k" "k < 64"
    have "\<not> bitof m k" if "start \<le> k" "k < start + cnt"
    proof -
      have "check_block_status m k = Inr 0" using fr that by simp
      then show ?thesis by (simp add: check_block_status_bitof[OF len k] split: if_splits)
    qed
    then show "bitof m1 k = bitof m k" using m1(3) k by auto
  qed
  ultimately show ?thesis using m1(1) m2(1) by blast
qed

theorem free_contiguous_idempotent_witness:
  "\<exists>m1. free_contiguous [255, 255, 1, 0, 0, 0, 0, 0] 0 12 = Inr m1 \<and>
           free_contiguous m1 0 12 = Inr m1 \<and>
           (\<forall>j \<in> {0 ..< 0 + 12}. check_block_status m1 j = Inr 0) \<and>
           ((\<forall>j \<in> {0 ..< 0 + 12}. check_block_status [255, 255, 1, 0, 0, 0, 0, 0] j = Inr 0)
              \<longrightarrow> m1 = [255, 255, 1, 0, 0, 0, 0, 0])"
proof (rule free_contiguous_idempotent)
  show "length [255, 255, 1, 0, 0, 0, 0, 0 :: 8 word] = nat MAP_SIZE" by (simp add: map_size_8)
  show "(0::int) \<le> 0" "(0::int) \<le> 12" by simp_all
  show "(0::int) + 12 \<le> BLOCK_COUNT" by (simp add: BLOCK_COUNT_def)
qed

text \<open>
  Claim C10 (the allocation takes the front of the free list). When the free list is
  \<open>xs\<close> and \<open>1 \<le> need \<le> length xs\<close>, \<open>get_blocks\<close> returns the old \<open>free_start\<close>; the
  chain from this handle is the first \<open>need\<close> blocks of \<open>xs\<close> in their order, each pointing to
  the next and the last to \<open>NO_BLOCK\<close>; the free list is what remains of \<open>xs\<close>; no block
  outside \<open>xs\<close> is written. The same holds of \<open>allocate_file_blocks\<close>, the allocation of the
  second copy, which also writes the label \<open>file-data-j\<close> into the \<open>j\<close>-th block it takes.
\<close>

theorem get_blocks_takes_prefix:
  assumes "chain (storage p) (free_start p) xs" and "1 \<le> need" and "need \<le> int (length xs)"
  shows "(\<exists>p'. get_blocks p need = Some (Inr (p', free_start p)) \<and>
           chain (storage p') (free_start p) (take (nat need) xs) \<and>
           chain (storage p') (free_start p') (drop (nat need) xs) \<and>
           frame p p' xs) \<and>
         (\<exists>p'. allocate_file_blocks p need = Some (Inr (p', free_start p)) \<and>
           chain (storage p') (free_start p) (take (nat need) xs) \<and>
           chain (storage p') (free_start p') (drop (nat need) xs) \<and>
           length (storage p') = length (storage p) \<and>
           (\<forall>i. 0 \<le> i \<and> i \<notin> set xs \<longrightarrow> storage p' ! nat i = storage p ! nat i) \<and>
           (\<forall>j. j < nat need \<longrightarrow>
              info (storage p' ! nat (xs ! j)) = take 31 (''file-data-'' @ print_d (int j))))"
proof (rule conjI)
  from get_blocks_spec[OF assms(1), of need] assms(2,3)
  obtain p' r where res: "get_blocks p need = Some (Inr (p', r))" "frame p p' xs"
    "chain (storage p') r (take (nat need) xs)"
    "chain (storage p') (free_start p') (drop (nat need) xs)"
    by auto
  have ne: "xs \<noteq> []" "take (nat need) xs \<noteq> []" using assms(2,3) by auto
  have "r = hd (take (nat need) xs)" using chain_head[OF res(3)] ne by simp
  also have "\<dots> = hd xs" using assms(2) by (cases xs) (auto simp: take_Cons')
  also have "\<dots> = free_start p" using chain_head[OF assms(1)] ne by simp
  finally show "\<exists>p'. get_blocks p need = Some (Inr (p', free_start p)) \<and>
           chain (storage p') (free_start p) (take (nat need) xs) \<and>
           chain (storage p') (free_start p') (drop (nat need) xs) \<and>
           frame p p' xs"
    using res by auto
next
  show "\<exists>p'. allocate_file_blocks p need = Some (Inr (p', free_start p)) \<and>
           chain (storage p') (free_start p) (take (nat need) xs) \<and>
           chain (storage p') (free_start p') (drop (nat need) xs) \<and>
           length (storage p') = length (storage p) \<and>
           (\<forall>i. 0 \<le> i \<and> i \<notin> set xs \<longrightarrow> storage p' ! nat i = storage p ! nat i) \<and>
           (\<forall>j. j < nat need \<longrightarrow>
              info (storage p' ! nat (xs ! j)) = take 31 (''file-data-'' @ print_d (int j)))"
    using assms by (rule allocate_file_blocks_takes_prefix)
qed

theorem get_blocks_takes_prefix_witness:
  "(\<exists>p'. get_blocks fresh_pool 3 = Some (Inr (p', free_start fresh_pool)) \<and>
           chain (storage p') (free_start fresh_pool) (take (nat 3) [0 .. 63]) \<and>
           chain (storage p') (free_start p') (drop (nat 3) [0 .. 63]) \<and>
           frame fresh_pool p' [0 .. 63]) \<and>
   (\<exists>p'. allocate_file_blocks fresh_pool 3 = Some (Inr (p', free_start fresh_pool)) \<and>
           chain (storage p') (free_start fresh_pool) (take (nat 3) [0 .. 63]) \<and>
           chain (storage p') (free_start p') (drop (nat 3) [0 .. 63]) \<and>
           length (storage p') = length (storage fresh_pool) \<and>
           (\<forall>i. 0 \<le> i \<and> i \<notin> set [0 .. 63] \<longrightarrow>
                storage p' ! nat i = storage fresh_pool ! nat i) \<and>
           (\<forall>j. j < nat 3 \<longrightarrow>
              info (storage p' ! nat ([0 .. 63] ! j)) = take 31 (''file-data-'' @ print_d (int j))))"
proof (rule get_blocks_takes_prefix)
  show "chain (storage fresh_pool) (free_start fresh_pool) [0 .. 63]" by (rule fresh_pool_chain)
  show "(1::int) \<le> 3" by simp
  show "3 \<le> int (length [0 .. 63::int])" by simp
qed

end
